theory Spec2Isabelle
  imports
    Complex_Main
    "HOL-Library.Char_ord"
    "HOL-Library.List_Lexorder"
    "HOL-Library.Multiset"
    "HOL-Library.Product_Lexorder"
    "HOL-Library.Sublist"
begin

section \<open>The sortable table of \<^verbatim>\<open>table.py\<close>\<close>

text \<open>
  The repository is one class, \<^verbatim>\<open>Table\<close>, that drives a \<^verbatim>\<open>ttk.Treeview\<close>.
  The widget is the only state the class mutates besides its own three fields, so the
  embedding has two records: the part of the widget the class reads and writes, and the
  class instance. Every method that can raise returns \<open>py_error + _\<close>. Cells, headers
  and tags are strings; scrollbars, grid placement and styles, which no method reads
  back, are left out.
\<close>

subsection \<open>Errors and strings of the host language\<close>

datatype py_error = IndexError | ValueError | TclError

text \<open>
  A list comprehension \<^verbatim>\<open>[f(x) for x in xs]\<close> whose body can raise: the first failing
  element aborts the whole comprehension.
\<close>

fun map_raise :: "('a \<Rightarrow> py_error + 'b) \<Rightarrow> 'a list \<Rightarrow> py_error + 'b list" where
  "map_raise f [] = Inr []"
| "map_raise f (x # xs) =
     (case f x of
        Inl e \<Rightarrow> Inl e
      | Inr y \<Rightarrow> (case map_raise f xs of Inl e \<Rightarrow> Inl e | Inr ys \<Rightarrow> Inr (y # ys)))"

text \<open>The operator \<^verbatim>\<open>sub in s\<close> on strings: \<open>sub\<close> occurs in \<open>s\<close> as a contiguous run.\<close>

fun py_in :: "string \<Rightarrow> string \<Rightarrow> bool" where
  "py_in sub [] = (sub = [])"
| "py_in sub (c # s) = (prefix sub (c # s) \<or> py_in sub s)"

text \<open>
  \<^verbatim>\<open>list.sort(reverse=b)\<close> is a stable ascending sort; with \<^verbatim>\<open>reverse=True\<close> the list is
  reversed, sorted and reversed again, which keeps equal elements in their original order.
\<close>

definition py_sort :: "bool \<Rightarrow> ('a::linorder) list \<Rightarrow> 'a list" where
  "py_sort reverse xs = (if reverse then rev (sort (rev xs)) else sort xs)"

text \<open>
  \<^verbatim>\<open>float(s)\<close> is the interpreter's builtin. The development is parametric in it: a partial
  function \<open>pfloat\<close> from strings to a linearly ordered type of numbers, \<open>None\<close> where
  the builtin raises \<^verbatim>\<open>ValueError\<close>. The one float that no order places, NaN, is outside
  the model: the theorems speak of columns none of whose cells spells it.
\<close>

definition py_float :: "(string \<Rightarrow> 'f option) \<Rightarrow> string \<Rightarrow> py_error + 'f" where
  "py_float pfloat s = (case pfloat s of None \<Rightarrow> Inl ValueError | Some v \<Rightarrow> Inr v)"

subsection \<open>The tree widget, as far as the class uses it\<close>

type_synonym iid = string

record treeview =
  columns :: "string list"
  width :: "string \<Rightarrow> int"
  serial :: nat
  children :: "iid list"
  item_values :: "iid \<Rightarrow> string list"
  item_tags :: "iid \<Rightarrow> string list"

text \<open>
  \<^verbatim>\<open>ttk.Treeview(columns=cols, show='headings')\<close>: no rows, every column at the widget's
  default width of 200 pixels. The root item has the handle \<^verbatim>\<open>''\<close> and no tags.
\<close>

definition Treeview :: "string list \<Rightarrow> treeview" where
  "Treeview cs =
     \<lparr>columns = cs, width = (\<lambda>_. 200), serial = 0, children = [],
      item_values = (\<lambda>_. []), item_tags = (\<lambda>_. [])\<rparr>"

text \<open>
  The widget names a new item \<^verbatim>\<open>I\<close> followed by its serial number in upper-case
  hexadecimal, padded to three digits: \<^verbatim>\<open>I001\<close>, \<^verbatim>\<open>I002\<close>, ...
\<close>

definition hex_digit :: "nat \<Rightarrow> char" where
  "hex_digit d =
     (if d < 10 then char_of (of_char CHR ''0'' + d)
      else char_of (of_char CHR ''A'' + (d - 10)))"

fun hex :: "nat \<Rightarrow> string" where
  "hex n = (if n < 16 then [hex_digit n] else hex (n div 16) @ [hex_digit (n mod 16)])"

declare hex.simps [simp del]

definition item_id :: "nat \<Rightarrow> iid" where
  "item_id n = CHR ''I'' # replicate (3 - length (hex n)) CHR ''0'' @ hex n"

text \<open>\<^verbatim>\<open>tree.insert('', 'end', values=vs, tags=ts)\<close>\<close>

definition tree_insert :: "string list \<Rightarrow> string list \<Rightarrow> treeview \<Rightarrow> treeview" where
  "tree_insert vs ts t =
     (let i = item_id (Suc (serial t)) in
      t\<lparr>serial := Suc (serial t),
        children := children t @ [i],
        item_values := (item_values t)(i := vs),
        item_tags := (item_tags t)(i := ts)\<rparr>)"

text \<open>\<^verbatim>\<open>tree.column(c, width=w)\<close> and \<^verbatim>\<open>tree.column(c, 'width')\<close>\<close>

definition tree_column_set :: "string \<Rightarrow> int \<Rightarrow> treeview \<Rightarrow> treeview" where
  "tree_column_set c w t = t\<lparr>width := (width t)(c := w)\<rparr>"

definition tree_column_width :: "treeview \<Rightarrow> string \<Rightarrow> int" where
  "tree_column_width t c = width t c"

text \<open>
  \<^verbatim>\<open>tree.set(item, col)\<close>: the text of the cell of \<open>item\<close> under the column named
  \<open>col\<close>; an item with fewer values than columns shows empty cells on the right. A name
  that is no column of the widget raises.
\<close>

fun column_index :: "string list \<Rightarrow> string \<Rightarrow> nat option" where
  "column_index [] c = None"
| "column_index (x # xs) c =
     (if x = c then Some 0 else map_option Suc (column_index xs c))"

definition cell_text :: "treeview \<Rightarrow> nat \<Rightarrow> iid \<Rightarrow> string" where
  "cell_text t k i = (if k < length (item_values t i) then item_values t i ! k else [])"

definition tree_set :: "treeview \<Rightarrow> iid \<Rightarrow> string \<Rightarrow> py_error + string" where
  "tree_set t i col =
     (case column_index (columns t) col of
        None \<Rightarrow> Inl TclError
      | Some k \<Rightarrow> Inr (cell_text t k i))"

text \<open>
  \<^verbatim>\<open>tree.move(item, '', i)\<close>: the item is detached and put back as the \<open>i\<close>-th child of
  the root (last, when \<open>i\<close> is beyond the end).
\<close>

definition tree_move :: "iid \<Rightarrow> nat \<Rightarrow> treeview \<Rightarrow> treeview" where
  "tree_move x i t =
     (let rest = removeAll x (children t) in
      t\<lparr>children := take i rest @ x # drop i rest\<rparr>)"

text \<open>\<^verbatim>\<open>tree.item(item, tags=ts)\<close> and \<^verbatim>\<open>tree.item(item)['tags']\<close>\<close>

definition tree_item_set_tags :: "iid \<Rightarrow> string list \<Rightarrow> treeview \<Rightarrow> treeview" where
  "tree_item_set_tags x ts t = t\<lparr>item_tags := (item_tags t)(x := ts)\<rparr>"

definition tree_exists :: "treeview \<Rightarrow> iid \<Rightarrow> bool" where
  "tree_exists t x = (x = [] \<or> x \<in> set (children t))"

definition tree_item_tags :: "treeview \<Rightarrow> iid \<Rightarrow> py_error + string list" where
  "tree_item_tags t x = (if tree_exists t x then Inr (item_tags t x) else Inl TclError)"

subsection \<open>The class \<^verbatim>\<open>Table\<close>\<close>

record table =
  cols :: "string list"
  data :: "string list list"
  descending :: bool
  last_focus_iid :: "iid option"
  last_focus_tags :: "string list option"
  tree :: treeview

text \<open>
  \<^verbatim>\<open>insert_data\<close>, first loop: every header gets its click command and the column starts
  as wide as its header text. \<open>fmeasure\<close> is \<^verbatim>\<open>Font().measure\<close>.
\<close>

fun insert_headers :: "(string \<Rightarrow> int) \<Rightarrow> string list \<Rightarrow> treeview \<Rightarrow> treeview" where
  "insert_headers fmeasure [] t = t"
| "insert_headers fmeasure (c # cs) t =
     insert_headers fmeasure cs (tree_column_set c (fmeasure c) t)"

text \<open>
  The inner loop \<^verbatim>\<open>for idx, val in enumerate(item)\<close>; \<^verbatim>\<open>self.cols[idx]\<close> raises when the
  row is longer than the header list.
\<close>

fun widen_cols ::
  "(string \<Rightarrow> int) \<Rightarrow> string list \<Rightarrow> nat \<Rightarrow> string list \<Rightarrow> treeview \<Rightarrow> py_error + treeview"
where
  "widen_cols fmeasure cs idx [] t = Inr t"
| "widen_cols fmeasure cs idx (v # vs) t =
     (let iwidth = fmeasure v in
      if idx < length cs then
        widen_cols fmeasure cs (Suc idx) vs
          (if tree_column_width t (cs ! idx) < iwidth
           then tree_column_set (cs ! idx) iwidth t else t)
      else Inl IndexError)"

fun insert_rows ::
  "(string \<Rightarrow> int) \<Rightarrow> string list \<Rightarrow> bool \<Rightarrow> string list list \<Rightarrow> treeview \<Rightarrow> py_error + treeview"
where
  "insert_rows fmeasure cs odd_row [] t = Inr t"
| "insert_rows fmeasure cs odd_row (item # rest) t =
     (case widen_cols fmeasure cs 0 item
             (tree_insert item (if odd_row then [''oddrow''] else [''evenrow'']) t) of
        Inl e \<Rightarrow> Inl e
      | Inr t' \<Rightarrow> insert_rows fmeasure cs (\<not> odd_row) rest t')"

definition insert_data :: "(string \<Rightarrow> int) \<Rightarrow> table \<Rightarrow> py_error + table" where
  "insert_data fmeasure s =
     (case insert_rows fmeasure (cols s) True (data s)
             (insert_headers fmeasure (cols s) (tree s)) of
        Inl e \<Rightarrow> Inl e
      | Inr t \<Rightarrow> Inr (s\<lparr>tree := t\<rparr>))"

text \<open>\<^verbatim>\<open>__init__\<close> followed by \<^verbatim>\<open>init_table\<close>, which ends in \<^verbatim>\<open>insert_data\<close>.\<close>

definition init_table :: "(string \<Rightarrow> int) \<Rightarrow> table \<Rightarrow> py_error + table" where
  "init_table fmeasure s = insert_data fmeasure (s\<lparr>tree := Treeview (cols s)\<rparr>)"

definition Table :: "(string \<Rightarrow> int) \<Rightarrow> string list \<Rightarrow> string list list \<Rightarrow> py_error + table" where
  "Table fmeasure cs rows =
     init_table fmeasure
       \<lparr>cols = cs, data = rows, descending = True,
        last_focus_iid = None, last_focus_tags = None, tree = Treeview cs\<rparr>"

subsection \<open>\<^verbatim>\<open>sort_cols\<close>\<close>

definition looks_numeric :: "string \<Rightarrow> bool" where
  "looks_numeric v = py_in (take 1 v) ''0123456789''"

text \<open>The loop that moves every row to its sorted position and gives it its shade.\<close>

fun place_rows :: "nat \<Rightarrow> bool \<Rightarrow> iid list \<Rightarrow> treeview \<Rightarrow> treeview" where
  "place_rows i odd_row [] t = t"
| "place_rows i odd_row (x # xs) t =
     place_rows (Suc i) (\<not> odd_row) xs
       (tree_item_set_tags x (if odd_row then [''oddrow''] else [''evenrow''])
          (tree_move x i t))"

definition finish_sort :: "iid list \<Rightarrow> table \<Rightarrow> table" where
  "finish_sort order s =
     s\<lparr>tree := place_rows 0 True order (tree s), descending := \<not> descending s\<rparr>"

definition read_column :: "treeview \<Rightarrow> string \<Rightarrow> py_error + (string \<times> iid) list" where
  "read_column t col =
     map_raise
       (\<lambda>child. case tree_set t child col of Inl e \<Rightarrow> Inl e | Inr v \<Rightarrow> Inr (v, child))
       (children t)"

definition to_floats ::
  "(string \<Rightarrow> 'f option) \<Rightarrow> (string \<times> iid) list \<Rightarrow> py_error + ('f \<times> iid) list"
where
  "to_floats pfloat xs =
     map_raise
       (\<lambda>x. case py_float pfloat (fst x) of Inl e \<Rightarrow> Inl e | Inr f \<Rightarrow> Inr (f, snd x))
       xs"

definition sort_cols ::
  "(string \<Rightarrow> ('f::linorder) option) \<Rightarrow> string \<Rightarrow> table \<Rightarrow> py_error + table"
where
  "sort_cols pfloat col s =
     (case read_column (tree s) col of
        Inl e \<Rightarrow> Inl e
      | Inr rows \<Rightarrow>
          (case rows of
             [] \<Rightarrow> Inl IndexError
           | first # _ \<Rightarrow>
               if looks_numeric (fst first) then
                 (case to_floats pfloat rows of
                    Inl e \<Rightarrow> Inl e
                  | Inr nums \<Rightarrow>
                      Inr (finish_sort (map snd (py_sort (descending s) nums)) s))
               else Inr (finish_sort (map snd (py_sort (descending s) rows)) s)))"

subsection \<open>\<^verbatim>\<open>highlight_row\<close>\<close>

text \<open>
  The argument is what \<^verbatim>\<open>identify_row(event.y)\<close> returned: the handle of the row under
  the pointer, or \<^verbatim>\<open>''\<close>. Truth of a handle is Python's: \<^verbatim>\<open>None\<close> and \<^verbatim>\<open>''\<close> are false.
  Passing \<^verbatim>\<open>tags=None\<close> to \<^verbatim>\<open>tree.item\<close> changes nothing.
\<close>

definition truthy :: "iid option \<Rightarrow> bool" where
  "truthy x = (case x of None \<Rightarrow> False | Some i \<Rightarrow> i \<noteq> [])"

definition restore_focus :: "table \<Rightarrow> treeview" where
  "restore_focus s =
     (if truthy (last_focus_iid s) then
        (case last_focus_tags s of
           None \<Rightarrow> tree s
         | Some ts \<Rightarrow> tree_item_set_tags (the (last_focus_iid s)) ts (tree s))
      else tree s)"

definition highlight_row :: "iid \<Rightarrow> table \<Rightarrow> py_error + table" where
  "highlight_row i s =
     (if Some i \<noteq> last_focus_iid s then
        (let t = restore_focus s in
         case tree_item_tags t i of
           Inl e \<Rightarrow> Inl e
         | Inr saved \<Rightarrow>
             Inr (s\<lparr>last_focus_tags := Some saved,
                    tree := tree_item_set_tags i [''hovered_row''] t,
                    last_focus_iid := Some i\<rparr>))
      else Inr s)"

subsection \<open>A runnable instance of the number parser\<close>

text \<open>
  To run the model on concrete tables, \<open>decimal_float\<close> reads the plain decimal
  literals among the strings the builtin accepts: an optional sign, digits, and an
  optional fraction, with at least one digit on either side of the point. It returns the
  exact value of the literal. The builtin's other spellings (exponents, underscores,
  surrounding blanks, infinities) are not read: \<open>decimal_float\<close> is \<open>None\<close> there.
  No theorem below depends on it but the ones evaluated at a concrete table.
\<close>

definition is_digit :: "char \<Rightarrow> bool" where
  "is_digit c = (c \<in> set ''0123456789'')"

definition digit_value :: "char \<Rightarrow> nat" where
  "digit_value c = of_char c - of_char CHR ''0''"

definition digits_value :: "string \<Rightarrow> nat" where
  "digits_value ds = foldl (\<lambda>acc c. 10 * acc + digit_value c) 0 ds"

definition unsigned_decimal :: "string \<Rightarrow> rat option" where
  "unsigned_decimal body =
     (let ip = takeWhile is_digit body; rest = dropWhile is_digit body in
      case rest of
        [] \<Rightarrow> if ip = [] then None else Some (of_nat (digits_value ip))
      | c # fp \<Rightarrow>
          if c = CHR ''.'' \<and> list_all is_digit fp \<and> (ip \<noteq> [] \<or> fp \<noteq> [])
          then Some (of_nat (digits_value (ip @ fp)) / 10 ^ length fp)
          else None)"

definition decimal_float :: "string \<Rightarrow> rat option" where
  "decimal_float s =
     (case s of
        [] \<Rightarrow> None
      | c # r \<Rightarrow>
          if c = CHR ''-'' then map_option uminus (unsigned_decimal r)
          else if c = CHR ''+'' then unsigned_decimal r
          else unsigned_decimal s)"

subsection \<open>Running the table, and what is observed of it\<close>

text \<open>
  The states a table can be in: the constructor's result, and whatever a completed header
  click or pointer motion makes of a state already reached. A handler that raises leaves
  the state as it was: \<open>sort_cols\<close> raises before its first write, and \<open>highlight_row\<close>
  is called with what the widget's hit test returned, a handle the widget has.
\<close>

inductive reachable :: "(string \<Rightarrow> ('f::linorder) option) \<Rightarrow> table \<Rightarrow> bool"
  for pfloat :: "string \<Rightarrow> 'f option"
where
  constructed: "Table fmeasure cs rows = Inr s \<Longrightarrow> reachable pfloat s"
| clicked: "reachable pfloat s \<Longrightarrow> sort_cols pfloat col s = Inr s' \<Longrightarrow> reachable pfloat s'"
| moved: "reachable pfloat s \<Longrightarrow> highlight_row i s = Inr s' \<Longrightarrow> reachable pfloat s'"

text \<open>Event sequences on a table that may already have failed.\<close>

definition click ::
  "(string \<Rightarrow> ('f::linorder) option) \<Rightarrow> string \<Rightarrow> py_error + table \<Rightarrow> py_error + table"
where
  "click pfloat col r = (case r of Inl e \<Rightarrow> Inl e | Inr s \<Rightarrow> sort_cols pfloat col s)"

definition motion :: "iid \<Rightarrow> py_error + table \<Rightarrow> py_error + table" where
  "motion i r = (case r of Inl e \<Rightarrow> Inl e | Inr s \<Rightarrow> highlight_row i s)"

text \<open>What the screen shows: the handles, the tags and the cells of the rows, top down.\<close>

definition row_order :: "py_error + table \<Rightarrow> iid list option" where
  "row_order r = (case r of Inl e \<Rightarrow> None | Inr s \<Rightarrow> Some (children (tree s)))"

definition row_tags :: "py_error + table \<Rightarrow> string list list option" where
  "row_tags r =
     (case r of Inl e \<Rightarrow> None
      | Inr s \<Rightarrow> Some (map (item_tags (tree s)) (children (tree s))))"

definition row_cells :: "py_error + table \<Rightarrow> string list list option" where
  "row_cells r =
     (case r of Inl e \<Rightarrow> None
      | Inr s \<Rightarrow> Some (map (item_values (tree s)) (children (tree s))))"

definition shown_column :: "string \<Rightarrow> py_error + table \<Rightarrow> (string \<times> iid) list option" where
  "shown_column col r =
     (case r of Inl e \<Rightarrow> None
      | Inr s \<Rightarrow> (case read_column (tree s) col of Inl e \<Rightarrow> None | Inr rows \<Rightarrow> Some rows))"

definition focus :: "py_error + table \<Rightarrow> (iid option \<times> string list option) option" where
  "focus r = (case r of Inl e \<Rightarrow> None | Inr s \<Rightarrow> Some (last_focus_iid s, last_focus_tags s))"


text \<open>
  The shade the loops give to the \<open>k\<close>-th row they visit, when the flag \<^verbatim>\<open>odd\<close> has the
  value \<open>odd_row\<close> on entry; a tree is shaded when every row carries exactly the shade
  of its position, counted from \<^verbatim>\<open>odd = True\<close> at the top.
\<close>

definition shade_from :: "bool \<Rightarrow> nat \<Rightarrow> string" where
  "shade_from odd_row k = (if odd_row = even k then ''oddrow'' else ''evenrow'')"

definition shaded :: "treeview \<Rightarrow> bool" where
  "shaded t =
     (map (item_tags t) (children t) =
      map (\<lambda>k. [shade_from True k]) [0..<length (children t)])"

definition hovered_rows :: "treeview \<Rightarrow> iid list" where
  "hovered_rows t = filter (\<lambda>x. ''hovered_row'' \<in> set (item_tags t x)) (children t)"

text \<open>
  What holds of the hover bookkeeping in every state the table reaches: handles are
  distinct and none is empty; a row that carries the hover tag is the recorded focus; and
  a recorded focus that is a row comes with saved tags free of the hover tag.
\<close>

definition hover_inv :: "table \<Rightarrow> bool" where
  "hover_inv s =
     (distinct (children (tree s)) \<and> [] \<notin> set (children (tree s))
      \<and> list_all (\<lambda>x. ''hovered_row'' \<in> set (item_tags (tree s) x) \<longrightarrow> last_focus_iid s = Some x)
            (children (tree s))
      \<and> (truthy (last_focus_iid s) \<longrightarrow>
            the (last_focus_iid s) \<in> set (children (tree s))
            \<and> (case last_focus_tags s of
                 None \<Rightarrow> False
               | Some ts \<Rightarrow> ''hovered_row'' \<notin> set ts)))"

text \<open>Which branch of line 107 a sort of this state takes.\<close>

definition numeric_branch :: "table \<Rightarrow> string \<Rightarrow> bool" where
  "numeric_branch s col =
     (case read_column (tree s) col of
        Inl e \<Rightarrow> False
      | Inr rows \<Rightarrow> (case rows of [] \<Rightarrow> False | first # _ \<Rightarrow> looks_numeric (fst first)))"

text \<open>Reading a handle back to its serial number, to tell handles apart.\<close>

definition unhex_digit :: "char \<Rightarrow> nat" where
  "unhex_digit c = (if of_char c < (65::nat) then of_char c - 48 else of_char c - 55)"

definition unhex :: "string \<Rightarrow> nat" where
  "unhex s = foldl (\<lambda>acc c. 16 * acc + unhex_digit c) 0 s"

section \<open>Handles, sorting and the widget's loops\<close>

lemma unhex_hex_digit: 
  assumes "d < 16" shows "unhex_digit (hex_digit d) = d"
  using assms by (simp add: hex_digit_def unhex_digit_def)

lemma unhex_snoc: "unhex (s @ [c]) = 16 * unhex s + unhex_digit c"
  by (simp add: unhex_def)

lemma unhex_hex: "unhex (hex n) = n"
proof (induction n rule: hex.induct)
  case (1 n)
  show ?case
  proof (cases "n < 16")
    case True
    then show ?thesis by (subst hex.simps) (simp add: unhex_def unhex_hex_digit)
  next
    case False
    then have "unhex (hex n) = 16 * unhex (hex (n div 16)) + unhex_digit (hex_digit (n mod 16))"
      by (subst hex.simps) (simp add: unhex_snoc)
    also have "\<dots> = 16 * (n div 16) + n mod 16"
      using 1 False by (simp add: unhex_hex_digit)
    finally show ?thesis by simp
  qed
qed

lemma unhex_zeros: "unhex (replicate k CHR ''0'' @ s) = unhex s"
proof (induction k)
  case 0 show ?case by simp
next
  case (Suc k)
  then show ?case by (simp add: unhex_def unhex_digit_def)
qed

lemma item_id_inj: "item_id a = item_id b \<Longrightarrow> a = b"
proof -
  assume "item_id a = item_id b"
  then have "unhex (tl (item_id a)) = unhex (tl (item_id b))" by simp
  then show ?thesis by (simp add: item_id_def unhex_zeros unhex_hex)
qed

lemma item_id_nonempty: "item_id n \<noteq> []"
  by (simp add: item_id_def)

lemma py_sort_mset [simp]: "mset (py_sort b xs) = mset xs"
  by (simp add: py_sort_def)

lemma py_sort_desc: "py_sort True xs = rev (sort xs)"
  unfolding py_sort_def
  by (simp add: properties_for_sort)


lemma looks_numeric_iff: "looks_numeric v \<longleftrightarrow> v = [] \<or> is_digit (hd v)"
  by (cases v) (auto simp: looks_numeric_def is_digit_def)

lemma children_set_tags [simp]: "children (tree_item_set_tags x ts t) = children t"
  by (simp add: tree_item_set_tags_def)

lemma children_move:
  assumes "x \<notin> set pre" "length pre = i" "children t = pre @ rest"
  shows "children (tree_move x i t) = pre @ x # removeAll x rest"
  using assms by (simp add: tree_move_def)

lemma place_rows_children:
  assumes "distinct (pre @ rest)" "children t = pre @ rest" "length pre = i" "mset xs = mset rest"
  shows "children (place_rows i b xs t) = pre @ xs"
  using assms
proof (induction xs arbitrary: pre rest i b t)
  case Nil
  then show ?case by simp
next
  case (Cons x xs)
  let ?t = "tree_item_set_tags x (if b then [''oddrow''] else [''evenrow'']) (tree_move x i t)"
  from Cons.prems have xin: "x \<in> set rest" by (metis list.set_intros(1) mset_eq_setD)
  with Cons.prems have xpre: "x \<notin> set pre" by auto
  have ch: "children ?t = (pre @ [x]) @ removeAll x rest"
    using children_move[OF xpre Cons.prems(3) Cons.prems(2)] by simp
  have d: "distinct ((pre @ [x]) @ removeAll x rest)"
    using Cons.prems(1) xpre by (auto simp: distinct_removeAll)
  have "mset (removeAll x rest) = mset rest - {#x#}"
    using Cons.prems(1) by (simp add: distinct_remove1_removeAll[symmetric])
  then have m: "mset xs = mset (removeAll x rest)"
    using Cons.prems(4) by (metis add_mset_remove_trivial mset.simps(2))
  have "children (place_rows (Suc i) (\<not> b) xs ?t) = (pre @ [x]) @ xs"
    by (rule Cons.IH[OF d ch _ m]) (simp add: Cons.prems(3))
  then show ?case by simp
qed

lemma place_rows_tags_other:
  "y \<notin> set xs \<Longrightarrow> item_tags (place_rows i b xs t) y = item_tags t y"
  by (induction xs arbitrary: i b t) (auto simp: tree_item_set_tags_def tree_move_def Let_def)

lemma place_rows_tags:
  "distinct xs \<Longrightarrow> k < length xs \<Longrightarrow>
   item_tags (place_rows i b xs t) (xs ! k) = [shade_from b k]"
proof (induction xs arbitrary: i b t k)
  case Nil
  then show ?case by simp
next
  case (Cons x xs)
  show ?case
  proof (cases k)
    case 0
    with Cons.prems show ?thesis
      by (simp add: place_rows_tags_other tree_item_set_tags_def shade_from_def)
  next
    case (Suc j)
    with Cons.prems have "item_tags (place_rows (Suc i) (\<not> b) xs 
       (tree_item_set_tags x (if b then [''oddrow''] else [''evenrow'']) (tree_move x i t))) (xs ! j) = [shade_from (\<not> b) j]"
      by (intro Cons.IH) simp_all
    with Suc show ?thesis by (auto simp: shade_from_def)
  qed
qed

lemma place_rows_fields [simp]:
  "item_values (place_rows i b xs t) = item_values t"
  "columns (place_rows i b xs t) = columns t"
  "width (place_rows i b xs t) = width t"
  "serial (place_rows i b xs t) = serial t"
  by (induction xs arbitrary: i b t; simp add: tree_item_set_tags_def tree_move_def Let_def)+

lemma column_index_None: "column_index cs c = None \<longleftrightarrow> c \<notin> set cs"
  by (induction cs) auto

lemma column_index_Some: "column_index cs c = Some k \<Longrightarrow> k < length cs \<and> cs ! k = c"
  by (induction cs arbitrary: k) (auto split: if_splits)

lemma column_index_nth: "distinct cs \<Longrightarrow> k < length cs \<Longrightarrow> column_index cs (cs ! k) = Some k"
proof (induction cs arbitrary: k)
  case Nil
  then show ?case by simp
next
  case (Cons c cs)
  then show ?case by (cases k) auto
qed

lemma map_raise_Inr: "map_raise (\<lambda>x. Inr (g x)) xs = Inr (map g xs)"
  by (induction xs) simp_all

lemma map_raise_Inl: "xs \<noteq> [] \<Longrightarrow> map_raise (\<lambda>x. Inl e) xs = Inl e"
  by (cases xs) simp_all

lemma read_column_Some:
  "column_index (columns t) col = Some k \<Longrightarrow>
   read_column t col = Inr (map (\<lambda>c. (cell_text t k c, c)) (children t))"
  by (simp add: read_column_def tree_set_def map_raise_Inr)

lemma read_column_None:
  "column_index (columns t) col = None \<Longrightarrow> children t \<noteq> [] \<Longrightarrow> read_column t col = Inl TclError"
  by (simp add: read_column_def tree_set_def map_raise_Inl)

lemma read_column_snd: "read_column t col = Inr rows \<Longrightarrow> map snd rows = children t"
proof (cases "column_index (columns t) col")
  case None
  assume "read_column t col = Inr rows"
  with None show ?thesis
    using read_column_None[of t col] by (cases "children t = []") (auto simp: read_column_def)
next
  case (Some k)
  assume "read_column t col = Inr rows"
  with Some show ?thesis by (auto simp: read_column_Some comp_def)
qed

lemma to_floats_ok:
  "\<forall>x\<in>set xs. pfloat (fst x) \<noteq> None \<Longrightarrow>
   to_floats pfloat xs = Inr (map (\<lambda>x. (the (pfloat (fst x)), snd x)) xs)"
  by (induction xs) (auto simp: to_floats_def py_float_def)

lemma to_floats_fail:
  "\<exists>x\<in>set xs. pfloat (fst x) = None \<Longrightarrow> to_floats pfloat xs = Inl ValueError"
proof (induction xs)
  case Nil
  then show ?case by simp
next
  case (Cons x xs)
  then show ?case
    by (cases "pfloat (fst x)") (auto simp: to_floats_def py_float_def split: sum.splits)
qed

lemma to_floats_cases:
  "to_floats pfloat xs = Inl ValueError \<or>
   to_floats pfloat xs = Inr (map (\<lambda>x. (the (pfloat (fst x)), snd x)) xs)"
proof (cases "\<forall>x\<in>set xs. pfloat (fst x) \<noteq> None")
  case True
  then show ?thesis by (simp add: to_floats_ok)
next
  case False
  then show ?thesis by (simp add: to_floats_fail)
qed

lemma to_floats_snd: "to_floats pfloat xs = Inr ys \<Longrightarrow> map snd ys = map snd xs"
  using to_floats_cases[of pfloat xs] by (auto simp: comp_def)

lemma sort_cols_text:
  assumes "read_column (tree s) col = Inr (first # rest)" "\<not> looks_numeric (fst first)"
  shows "sort_cols pfloat col s =
         Inr (finish_sort (map snd (py_sort (descending s) (first # rest))) s)"
  using assms by (simp add: sort_cols_def)

lemma sort_cols_numeric:
  assumes "read_column (tree s) col = Inr (first # rest)" "looks_numeric (fst first)"
  shows "sort_cols pfloat col s =
     (case to_floats pfloat (first # rest) of
        Inl e \<Rightarrow> Inl e
      | Inr nums \<Rightarrow> Inr (finish_sort (map snd (py_sort (descending s) nums)) s))"
  using assms by (simp add: sort_cols_def)

lemma mset_map_snd_py_sort: "mset (map snd (py_sort b xs)) = mset (map snd xs)"
  by (metis mset_map py_sort_mset)

lemma sort_cols_order:
  assumes "sort_cols pfloat col s = Inr s'"
  obtains order where "s' = finish_sort order s" "mset order = mset (children (tree s))"
proof -
  from assms obtain rows where rc: "read_column (tree s) col = Inr rows"
    by (auto simp: sort_cols_def split: sum.splits)
  with assms obtain first rest where rows: "rows = first # rest"
    by (cases rows) (auto simp: sort_cols_def)
  show thesis
  proof (cases "looks_numeric (fst first)")
    case False
    with assms rc rows have "s' = finish_sort (map snd (py_sort (descending s) rows)) s"
      by (simp add: sort_cols_text)
    moreover have "mset (map snd (py_sort (descending s) rows)) = mset (children (tree s))"
      by (metis mset_map_snd_py_sort read_column_snd[OF rc])
    ultimately show thesis by (rule that)
  next
    case True
    with assms rc rows obtain nums where n: "to_floats pfloat rows = Inr nums"
      and s': "s' = finish_sort (map snd (py_sort (descending s) nums)) s"
      by (auto simp: sort_cols_numeric split: sum.splits)
    have "mset (map snd (py_sort (descending s) nums)) = mset (children (tree s))"
      by (metis mset_map_snd_py_sort read_column_snd[OF rc] to_floats_snd[OF n])
    with s' show thesis by (rule that)
  qed
qed

lemma finish_sort_children:
  assumes "distinct (children (tree s))" "mset order = mset (children (tree s))"
  shows "children (tree (finish_sort order s)) = order"
  using place_rows_children[of "[]" "children (tree s)" "tree s" 0 order True] assms
  by (simp add: finish_sort_def)

lemma finish_sort_fields [simp]:
  "last_focus_iid (finish_sort order s) = last_focus_iid s"
  "last_focus_tags (finish_sort order s) = last_focus_tags s"
  "descending (finish_sort order s) = (\<not> descending s)"
  "cols (finish_sort order s) = cols s"
  "item_values (tree (finish_sort order s)) = item_values (tree s)"
  "columns (tree (finish_sort order s)) = columns (tree s)"
  "width (tree (finish_sort order s)) = width (tree s)"
  by (simp_all add: finish_sort_def)

lemma finish_sort_shaded:
  assumes "distinct (children (tree s))" "mset order = mset (children (tree s))"
  shows "shaded (tree (finish_sort order s))"
proof -
  have d: "distinct order" using assms by (metis mset_eq_imp_distinct_iff)
  have c: "children (tree (finish_sort order s)) = order"
    by (rule finish_sort_children[OF assms])
  have "map (item_tags (place_rows 0 True order (tree s))) order
        = map (\<lambda>k. [shade_from True k]) [0..<length order]"
    by (rule nth_equalityI) (simp_all add: place_rows_tags[OF d])
  with c show ?thesis by (simp add: shaded_def finish_sort_def)
qed

lemma set_py_sort [simp]: "set (py_sort b xs) = set xs"
  by (metis py_sort_mset set_mset_mset)







section \<open>Construction\<close>

lemma widen_cols_fields:
  "widen_cols m cs idx vs t = Inr t' \<Longrightarrow>
   children t' = children t \<and> item_values t' = item_values t \<and> item_tags t' = item_tags t
   \<and> serial t' = serial t \<and> columns t' = columns t"
  by (induction vs arbitrary: idx t)
     (auto simp: Let_def tree_column_set_def split: if_splits)

lemma widen_cols_mono: "widen_cols m cs idx vs t = Inr t' \<Longrightarrow> width t c \<le> width t' c"
proof (induction vs arbitrary: idx t)
  case Nil
  then show ?case by simp
next
  case (Cons v vs)
  let ?t1 = "if tree_column_width t (cs ! idx) < m v then tree_column_set (cs ! idx) (m v) t else t"
  from Cons.prems have "widen_cols m cs (Suc idx) vs ?t1 = Inr t'"
    by (simp add: Let_def split: if_splits)
  then have "width ?t1 c \<le> width t' c" by (rule Cons.IH)
  moreover have "width t c \<le> width ?t1 c"
    by (simp add: tree_column_set_def tree_column_width_def)
  ultimately show ?case by linarith
qed

lemma widen_cols_wide:
  "widen_cols m cs idx vs t = Inr t' \<Longrightarrow> j < length vs \<Longrightarrow> m (vs ! j) \<le> width t' (cs ! (idx + j))"
proof (induction vs arbitrary: idx t j)
  case Nil
  then show ?case by simp
next
  case (Cons v vs)
  let ?t1 = "if tree_column_width t (cs ! idx) < m v then tree_column_set (cs ! idx) (m v) t else t"
  from Cons.prems have step: "widen_cols m cs (Suc idx) vs ?t1 = Inr t'"
    by (simp add: Let_def split: if_splits)
  show ?case
  proof (cases j)
    case 0
    have "m v \<le> width ?t1 (cs ! idx)"
      by (simp add: tree_column_set_def tree_column_width_def)
    also have "\<dots> \<le> width t' (cs ! idx)" by (rule widen_cols_mono[OF step])
    finally show ?thesis using 0 by simp
  next
    case (Suc j')
    with Cons.prems have "j' < length vs" by simp
    from Cons.IH[OF step this] Suc show ?thesis by simp
  qed
qed

lemma widen_cols_ok:
  "idx + length vs \<le> length cs \<Longrightarrow> \<exists>t'. widen_cols m cs idx vs t = Inr t'"
  by (induction vs arbitrary: idx t) (simp_all add: Let_def)

lemma widen_cols_length:
  "widen_cols m cs idx vs t = Inr t' \<Longrightarrow> idx \<le> length cs \<Longrightarrow> idx + length vs \<le> length cs"
proof (induction vs arbitrary: idx t)
  case Nil
  then show ?case by simp
next
  case (Cons v vs)
  from Cons.prems(1) have lt: "idx < length cs"
    by (simp add: Let_def split: if_splits)
  with Cons.prems(1) obtain t1 where "widen_cols m cs (Suc idx) vs t1 = Inr t'"
    by (simp add: Let_def split: if_splits)
  from Cons.IH[OF this] lt show ?case by simp
qed

lemma tree_insert_fields [simp]:
  "children (tree_insert vs ts t) = children t @ [item_id (Suc (serial t))]"
  "serial (tree_insert vs ts t) = Suc (serial t)"
  "width (tree_insert vs ts t) = width t"
  "columns (tree_insert vs ts t) = columns t"
  "item_values (tree_insert vs ts t) = (item_values t)(item_id (Suc (serial t)) := vs)"
  "item_tags (tree_insert vs ts t) = (item_tags t)(item_id (Suc (serial t)) := ts)"
  by (simp_all add: tree_insert_def Let_def)

lemma item_id_eq [simp]: "item_id a = item_id b \<longleftrightarrow> a = b"
  using item_id_inj by auto

lemma insert_rows_step:
  assumes "insert_rows m cs b (item # rest) t = Inr t'"
  obtains t1 where
    "widen_cols m cs 0 item (tree_insert item (if b then [''oddrow''] else [''evenrow'']) t) = Inr t1"
    "insert_rows m cs (\<not> b) rest t1 = Inr t'"
  using assms by (auto split: sum.splits)

lemma insert_rows_children:
  "insert_rows m cs b rows t = Inr t' \<Longrightarrow>
   children t' = children t @ map item_id [Suc (serial t)..<Suc (serial t) + length rows]
   \<and> serial t' = serial t + length rows \<and> columns t' = columns t"
proof (induction rows arbitrary: b t)
  case Nil
  then show ?case by simp
next
  case (Cons item rest)
  from Cons.prems(1) obtain t1 where
    w: "widen_cols m cs 0 item (tree_insert item (if b then [''oddrow''] else [''evenrow'']) t) = Inr t1"
    and r: "insert_rows m cs (\<not> b) rest t1 = Inr t'"
    by (rule insert_rows_step)
  from widen_cols_fields[OF w] have t1: "children t1 = children t @ [item_id (Suc (serial t))]"
    "serial t1 = Suc (serial t)" "columns t1 = columns t" by simp_all
  have "[Suc (serial t)..<Suc (serial t) + length (item # rest)]
        = Suc (serial t) # [Suc (Suc (serial t))..<Suc (Suc (serial t)) + length rest]"
    by (simp add: upt_conv_Cons del: upt_Suc)
  with Cons.IH[OF r] t1 show ?case by (simp del: upt_Suc)
qed

lemma insert_rows_items:
  "insert_rows m cs b rows t = Inr t' \<Longrightarrow>
   item_values t' (item_id n) =
     (if serial t < n \<and> n \<le> serial t + length rows then rows ! (n - Suc (serial t))
      else item_values t (item_id n))
   \<and> item_tags t' (item_id n) =
     (if serial t < n \<and> n \<le> serial t + length rows then [shade_from b (n - Suc (serial t))]
      else item_tags t (item_id n))"
proof (induction rows arbitrary: b t)
  case Nil
  then show ?case by auto
next
  case (Cons item rest)
  from Cons.prems(1) obtain t1 where
    w: "widen_cols m cs 0 item (tree_insert item (if b then [''oddrow''] else [''evenrow'']) t) = Inr t1"
    and r: "insert_rows m cs (\<not> b) rest t1 = Inr t'"
    by (rule insert_rows_step)
  from widen_cols_fields[OF w] have t1:
    "serial t1 = Suc (serial t)"
    "item_values t1 = (item_values t)(item_id (Suc (serial t)) := item)"
    "item_tags t1 = (item_tags t)(item_id (Suc (serial t)) := (if b then [''oddrow''] else [''evenrow'']))"
    by simp_all
  have sh: "shade_from (\<not> b) k = shade_from b (Suc k)" for k
    by (simp add: shade_from_def)
  have sh0: "(if b then [''oddrow''] else [''evenrow'']) = [shade_from b 0]"
    by (simp add: shade_from_def)
  consider "n \<le> serial t" | "n = Suc (serial t)" | "Suc (serial t) < n" by linarith
  then show ?case
  proof cases
    case 1
    with Cons.IH[OF r] t1 show ?thesis by simp
  next
    case 2
    with Cons.IH[OF r] t1 sh0 show ?thesis by simp
  next
    case 3
    then have "n - Suc (serial t) = Suc (n - Suc (Suc (serial t)))" by simp
    with 3 Cons.IH[OF r] t1 sh show ?thesis by auto
  qed
qed

lemma insert_rows_mono: "insert_rows m cs b rows t = Inr t' \<Longrightarrow> width t c \<le> width t' c"
proof (induction rows arbitrary: b t)
  case Nil
  then show ?case by simp
next
  case (Cons item rest)
  from Cons.prems(1) obtain t1 where
    w: "widen_cols m cs 0 item (tree_insert item (if b then [''oddrow''] else [''evenrow'']) t) = Inr t1"
    and r: "insert_rows m cs (\<not> b) rest t1 = Inr t'"
    by (rule insert_rows_step)
  from widen_cols_mono[OF w, of c] Cons.IH[OF r] show ?case by simp
qed

lemma insert_rows_wide:
  "insert_rows m cs b rows t = Inr t' \<Longrightarrow> row \<in> set rows \<Longrightarrow> k < length row \<Longrightarrow>
   m (row ! k) \<le> width t' (cs ! k)"
proof (induction rows arbitrary: b t)
  case Nil
  then show ?case by simp
next
  case (Cons item rest)
  from Cons.prems(1) obtain t1 where
    w: "widen_cols m cs 0 item (tree_insert item (if b then [''oddrow''] else [''evenrow'']) t) = Inr t1"
    and r: "insert_rows m cs (\<not> b) rest t1 = Inr t'"
    by (rule insert_rows_step)
  show ?case
  proof (cases "row = item")
    case True
    with widen_cols_wide[OF w, of k] Cons.prems have "m (row ! k) \<le> width t1 (cs ! k)" by simp
    with insert_rows_mono[OF r, of "cs ! k"] show ?thesis by linarith
  next
    case False
    with Cons.prems have "row \<in> set rest" by simp
    from Cons.IH[OF r this Cons.prems(3)] show ?thesis .
  qed
qed

lemma insert_rows_ok:
  "\<forall>row\<in>set rows. length row \<le> length cs \<Longrightarrow> \<exists>t'. insert_rows m cs b rows t = Inr t'"
proof (induction rows arbitrary: b t)
  case Nil
  then show ?case by simp
next
  case (Cons item rest)
  then have "length item \<le> length cs" by simp
  then obtain t1 where
    "widen_cols m cs 0 item (tree_insert item (if b then [''oddrow''] else [''evenrow'']) t) = Inr t1"
    using widen_cols_ok[of 0 item cs] by auto
  with Cons show ?case by simp
qed

lemma insert_rows_length:
  "insert_rows m cs b rows t = Inr t' \<Longrightarrow> row \<in> set rows \<Longrightarrow> length row \<le> length cs"
proof (induction rows arbitrary: b t)
  case Nil
  then show ?case by simp
next
  case (Cons item rest)
  from Cons.prems(1) obtain t1 where
    w: "widen_cols m cs 0 item (tree_insert item (if b then [''oddrow''] else [''evenrow'']) t) = Inr t1"
    and r: "insert_rows m cs (\<not> b) rest t1 = Inr t'"
    by (rule insert_rows_step)
  from widen_cols_length[OF w] Cons.IH[OF r] Cons.prems(2) show ?case by auto
qed

lemma insert_headers_width_other:
  "c \<notin> set cs \<Longrightarrow> width (insert_headers m cs t) c = width t c"
  by (induction cs arbitrary: t) (simp_all add: tree_column_set_def)

lemma insert_headers_width:
  "c \<in> set cs \<Longrightarrow> width (insert_headers m cs t) c = m c"
proof (induction cs arbitrary: t)
  case Nil
  then show ?case by simp
next
  case (Cons x cs)
  then show ?case
    by (cases "c \<in> set cs") (auto simp: insert_headers_width_other tree_column_set_def)
qed

lemma insert_headers_fields [simp]:
  "serial (insert_headers m cs t) = serial t"
  "columns (insert_headers m cs t) = columns t"
  "item_values (insert_headers m cs t) = item_values t"
  "item_tags (insert_headers m cs t) = item_tags t"
  by (induction cs arbitrary: t; simp add: tree_column_set_def)+

lemma children_insert_headers [simp]:
  "children (insert_headers fmeasure cs t) = children t"
  by (induction cs arbitrary: t) (simp_all add: tree_column_set_def)

lemma Table_Inr:
  assumes "Table m cs rows = Inr s"
  shows "insert_rows m cs True rows (insert_headers m cs (Treeview cs)) = Inr (tree s)"
    and "cols s = cs" and "data s = rows" and "descending s"
    and "last_focus_iid s = None" and "last_focus_tags s = None"
  using assms
  by (auto simp: Table_def init_table_def insert_data_def split: sum.splits)

lemma Table_ok:
  assumes "\<forall>row\<in>set rows. length row \<le> length cs"
  shows "\<exists>s. Table m cs rows = Inr s"
proof -
  from insert_rows_ok[OF assms] obtain t' where
    "insert_rows m cs True rows (insert_headers m cs (Treeview cs)) = Inr t'" by blast
  then show ?thesis by (simp add: Table_def init_table_def insert_data_def)
qed

lemma Table_children:
  assumes "Table m cs rows = Inr s"
  shows "children (tree s) = map (\<lambda>k. item_id (Suc k)) [0..<length rows]"
    and "columns (tree s) = cs"
proof -
  have "map item_id [Suc 0..<Suc 0 + length rows] = map item_id (map Suc [0..<length rows])"
    by (simp only: map_Suc_upt add_Suc add_0)
  with insert_rows_children[OF Table_Inr(1)[OF assms]]
  show "children (tree s) = map (\<lambda>k. item_id (Suc k)) [0..<length rows]"
    by (simp add: Treeview_def comp_def del: upt_Suc)
  from insert_rows_children[OF Table_Inr(1)[OF assms]]
  show "columns (tree s) = cs" by (simp add: Treeview_def)
qed

lemma Table_distinct:
  assumes "Table m cs rows = Inr s"
  shows "distinct (children (tree s))" and "[] \<notin> set (children (tree s))"
proof -
  show "distinct (children (tree s))"
    by (simp add: Table_children(1)[OF assms] distinct_map inj_on_def)
  show "[] \<notin> set (children (tree s))"
    using item_id_nonempty by (auto simp: Table_children(1)[OF assms] dest: sym)
qed

lemma Table_items:
  assumes "Table m cs rows = Inr s" "k < length rows"
  shows "item_values (tree s) (children (tree s) ! k) = rows ! k"
    and "item_tags (tree s) (children (tree s) ! k) = [shade_from True k]"
proof -
  have c: "children (tree s) ! k = item_id (Suc k)"
    using assms by (simp add: Table_children(1))
  from insert_rows_items[OF Table_Inr(1)[OF assms(1)], of "Suc k"] assms(2)
  show "item_values (tree s) (children (tree s) ! k) = rows ! k"
    and "item_tags (tree s) (children (tree s) ! k) = [shade_from True k]"
    by (simp_all add: c Treeview_def)
qed

lemma Table_cells:
  assumes "Table m cs rows = Inr s"
  shows "map (item_values (tree s)) (children (tree s)) = rows"
proof (rule nth_equalityI)
  show "length (map (item_values (tree s)) (children (tree s))) = length rows"
    by (simp add: Table_children(1)[OF assms])
next
  fix k assume "k < length (map (item_values (tree s)) (children (tree s)))"
  then have "k < length rows" by (simp add: Table_children(1)[OF assms])
  then show "map (item_values (tree s)) (children (tree s)) ! k = rows ! k"
    using Table_items(1)[OF assms, of k] by (simp add: Table_children(1)[OF assms])
qed

lemma Table_shaded:
  assumes "Table m cs rows = Inr s"
  shows "shaded (tree s)"
  unfolding shaded_def
proof (rule nth_equalityI)
  show "length (map (item_tags (tree s)) (children (tree s)))
        = length (map (\<lambda>k. [shade_from True k]) [0..<length (children (tree s))])"
    by simp
next
  fix k assume "k < length (map (item_tags (tree s)) (children (tree s)))"
  then have k: "k < length (children (tree s))" by simp
  then have "k < length rows" by (simp add: Table_children(1)[OF assms])
  from Table_items(2)[OF assms this] k
  show "map (item_tags (tree s)) (children (tree s)) ! k
        = map (\<lambda>k. [shade_from True k]) [0..<length (children (tree s))] ! k"
    by simp
qed

lemma tree_set_nth:
  assumes "distinct (columns t)" "k < length (columns t)"
  shows "tree_set t i (columns t ! k) = Inr (cell_text t k i)"
  using assms by (simp add: tree_set_def column_index_nth)

section \<open>Reachable states\<close>

lemma shade_from_not_hover [simp]:
  "shade_from b k \<noteq> ''hovered_row''" "''hovered_row'' \<noteq> shade_from b k"
  by (simp_all add: shade_from_def)

lemma shaded_nth:
  "shaded t \<Longrightarrow> k < length (children t) \<Longrightarrow> item_tags t (children t ! k) = [shade_from True k]"
  unfolding shaded_def by (metis (no_types, lifting) add_0 length_map nth_map nth_upt)

lemma shaded_no_hover:
  assumes "shaded t" "x \<in> set (children t)"
  shows "''hovered_row'' \<notin> set (item_tags t x)"
proof -
  from assms(2) obtain k where "k < length (children t)" "children t ! k = x"
    by (auto simp: in_set_conv_nth)
  with shaded_nth[OF assms(1), of k] show ?thesis by auto
qed

lemma hover_inv_Table:
  assumes "Table m cs rows = Inr s"
  shows "hover_inv s"
  using Table_distinct[OF assms] Table_Inr(5)[OF assms] shaded_no_hover[OF Table_shaded[OF assms]]
  by (simp add: hover_inv_def list_all_iff truthy_def)

lemma hover_inv_sort:
  assumes "hover_inv s" "sort_cols pfloat col s = Inr s'"
  shows "hover_inv s'"
proof -
  from assms(1) have d: "distinct (children (tree s))" by (simp add: hover_inv_def)
  from assms(2) obtain order where s': "s' = finish_sort order s"
    and m: "mset order = mset (children (tree s))"
    by (rule sort_cols_order)
  have c: "children (tree s') = order" unfolding s' by (rule finish_sort_children[OF d m])
  have so: "set order = set (children (tree s))" using m by (metis set_mset_mset)
  have "distinct order" using d m by (metis mset_eq_imp_distinct_iff)
  moreover have "shaded (tree s')" unfolding s' by (rule finish_sort_shaded[OF d m])
  ultimately show ?thesis
    using assms(1) shaded_no_hover[of "tree s'"] c so
    by (simp add: hover_inv_def list_all_iff s')
qed

lemma restore_focus_fields [simp]:
  "children (restore_focus s) = children (tree s)"
  "item_values (restore_focus s) = item_values (tree s)"
  "columns (restore_focus s) = columns (tree s)"
  "width (restore_focus s) = width (tree s)"
  by (simp_all add: restore_focus_def tree_item_set_tags_def split: option.splits)

lemma restore_focus_no_hover:
  assumes "hover_inv s" "x \<in> set (children (tree s))"
  shows "''hovered_row'' \<notin> set (item_tags (restore_focus s) x)"
proof (cases "truthy (last_focus_iid s)")
  case True
  with assms(1) obtain j ts where j: "last_focus_iid s = Some j" and ts: "last_focus_tags s = Some ts"
    and nh: "''hovered_row'' \<notin> set ts"
    by (auto simp: hover_inv_def truthy_def split: option.splits)
  have "item_tags (restore_focus s) = (item_tags (tree s))(j := ts)"
    using True j ts by (simp add: restore_focus_def tree_item_set_tags_def)
  moreover have "''hovered_row'' \<in> set (item_tags (tree s) x) \<Longrightarrow> x = j"
    using assms j by (auto simp: hover_inv_def list_all_iff)
  ultimately show ?thesis using nh by auto
next
  case False
  then have r: "restore_focus s = tree s" by (simp add: restore_focus_def)
  show ?thesis
  proof
    assume "''hovered_row'' \<in> set (item_tags (restore_focus s) x)"
    with r assms have "last_focus_iid s = Some x" "x \<noteq> []"
      by (auto simp: hover_inv_def list_all_iff)
    with False show False by (simp add: truthy_def)
  qed
qed

lemma highlight_row_same: "last_focus_iid s = Some i \<Longrightarrow> highlight_row i s = Inr s"
  by (simp add: highlight_row_def)

lemma highlight_row_other:
  assumes "last_focus_iid s \<noteq> Some i" "tree_exists (tree s) i"
  shows "highlight_row i s =
     Inr (s\<lparr>last_focus_tags := Some (item_tags (restore_focus s) i),
           tree := tree_item_set_tags i [''hovered_row''] (restore_focus s),
           last_focus_iid := Some i\<rparr>)"
  using assms
  by (auto simp: highlight_row_def tree_item_tags_def tree_exists_def Let_def)

lemma highlight_row_missing:
  assumes "last_focus_iid s \<noteq> Some i" "\<not> tree_exists (tree s) i"
  shows "highlight_row i s = Inl TclError"
  using assms
  by (auto simp: highlight_row_def tree_item_tags_def tree_exists_def Let_def)

lemma hover_inv_motion:
  assumes inv: "hover_inv s" and h: "highlight_row i s = Inr s'"
  shows "hover_inv s'"
proof (cases "last_focus_iid s = Some i")
  case True
  with h inv show ?thesis by (simp add: highlight_row_same)
next
  case False
  with h have ex: "tree_exists (tree s) i"
    using highlight_row_missing[of s i] by auto
  from highlight_row_other[OF False ex] h have s':
    "s' = s\<lparr>last_focus_tags := Some (item_tags (restore_focus s) i),
           tree := tree_item_set_tags i [''hovered_row''] (restore_focus s),
           last_focus_iid := Some i\<rparr>" by simp
  have tags: "item_tags (tree s') = (item_tags (restore_focus s))(i := [''hovered_row''])"
    and ch: "children (tree s') = children (tree s)"
    by (simp_all add: s' tree_item_set_tags_def)
  have 1: "distinct (children (tree s'))" "[] \<notin> set (children (tree s'))"
    using inv by (simp_all add: ch hover_inv_def)
  have 2: "list_all (\<lambda>x. ''hovered_row'' \<in> set (item_tags (tree s') x) \<longrightarrow> last_focus_iid s' = Some x)
            (children (tree s'))"
    using restore_focus_no_hover[OF inv]
    by (auto simp: list_all_iff ch s' tree_item_set_tags_def split: if_splits)
  have 3: "the (last_focus_iid s') \<in> set (children (tree s'))
           \<and> (case last_focus_tags s' of None \<Rightarrow> False | Some ts \<Rightarrow> ''hovered_row'' \<notin> set ts)"
    if "truthy (last_focus_iid s')"
  proof -
    from that have "i \<noteq> []" by (simp add: s' truthy_def)
    with ex have "i \<in> set (children (tree s))" by (simp add: tree_exists_def)
    with restore_focus_no_hover[OF inv this] show ?thesis by (simp add: s' tree_item_set_tags_def)
  qed
  from 1 2 3 show ?thesis by (simp add: hover_inv_def)
qed

lemma reachable_inv: "reachable pfloat s \<Longrightarrow> hover_inv s"
  by (induction rule: reachable.induct)
     (auto intro: hover_inv_Table hover_inv_sort hover_inv_motion)

lemma reachable_distinct: "reachable pfloat s \<Longrightarrow> distinct (children (tree s))"
  using reachable_inv[of pfloat s] by (simp add: hover_inv_def)

section \<open>What the constructor leaves on the screen\<close>

text \<open>
  C9. When no row is longer than the header list, the constructor returns a table with as
  many rows as the input has, whose rows hold the input rows in input order; and when the
  headers are distinct and every row has one value for each of them, the cells the widget
  reports for a row, read header by header, are that row's input values.
\<close>

theorem Table_shows_rows:
  assumes "\<forall>row\<in>set rows. length row \<le> length cs"
  shows "\<exists>s. Table fmeasure cs rows = Inr s
     \<and> length (children (tree s)) = length rows
     \<and> map (item_values (tree s)) (children (tree s)) = rows
     \<and> (distinct cs \<and> (\<forall>row\<in>set rows. length row = length cs) \<longrightarrow>
          map (\<lambda>i. map (tree_set (tree s) i) cs) (children (tree s)) = map (map Inr) rows)"
proof -
  from Table_ok[OF assms] obtain s where s: "Table fmeasure cs rows = Inr s" by blast
  have len: "length (children (tree s)) = length rows"
    by (simp add: Table_children(1)[OF s])
  have cells: "map (item_values (tree s)) (children (tree s)) = rows"
    by (rule Table_cells[OF s])
  have shown: "map (\<lambda>i. map (tree_set (tree s) i) cs) (children (tree s)) = map (map Inr) rows"
    if d: "distinct cs" and full: "\<forall>row\<in>set rows. length row = length cs"
  proof (rule nth_equalityI)
    show "length (map (\<lambda>i. map (tree_set (tree s) i) cs) (children (tree s)))
          = length (map (map Inr) rows)"
      using len by simp
  next
    fix k assume "k < length (map (\<lambda>i. map (tree_set (tree s) i) cs) (children (tree s)))"
    then have k: "k < length rows" using len by simp
    let ?i = "children (tree s) ! k"
    have v: "item_values (tree s) ?i = rows ! k" by (rule Table_items(1)[OF s k])
    have l: "length (rows ! k) = length cs" using full k by simp
    have "map (tree_set (tree s) ?i) cs = map Inr (rows ! k)"
    proof (rule nth_equalityI)
      show "length (map (tree_set (tree s) ?i) cs) = length (map Inr (rows ! k))"
        using l by simp
    next
      fix j assume "j < length (map (tree_set (tree s) ?i) cs)"
      then have j: "j < length cs" by simp
      have "tree_set (tree s) ?i (cs ! j) = Inr (cell_text (tree s) j ?i)"
        using tree_set_nth[of "tree s" j ?i] d j by (simp add: Table_children(2)[OF s])
      then show "map (tree_set (tree s) ?i) cs ! j = map Inr (rows ! k) ! j"
        using j l by (simp add: cell_text_def v)
    qed
    then show "map (\<lambda>i. map (tree_set (tree s) i) cs) (children (tree s)) ! k
               = map (map Inr) rows ! k"
      using k len by simp
  qed
  from s len cells shown show ?thesis by blast
qed

text \<open>The theorem at the two-row table of the specification's scenario.\<close>

theorem Table_shows_rows_witness:
  "list_all (\<lambda>row. length row \<le> length [''Name'', ''Score''])
     [[''Bob'', ''5''], [''Amy'', ''12'']]
   \<and> row_cells (Table (\<lambda>v. 7 * int (length v)) [''Name'', ''Score'']
        [[''Bob'', ''5''], [''Amy'', ''12'']]) = Some [[''Bob'', ''5''], [''Amy'', ''12'']]
   \<and> (\<exists>s. Table (\<lambda>v. 7 * int (length v)) [''Name'', ''Score'']
        [[''Bob'', ''5''], [''Amy'', ''12'']] = Inr s
        \<and> length (children (tree s)) = 2
        \<and> map (\<lambda>i. map (tree_set (tree s) i) [''Name'', ''Score'']) (children (tree s))
            = [[Inr ''Bob'', Inr ''5''], [Inr ''Amy'', Inr ''12'']])"
  using Table_shows_rows[of "[[''Bob'', ''5''], [''Amy'', ''12'']]" "[''Name'', ''Score'']"
      "\<lambda>v. 7 * int (length v)"]
  by (auto simp: row_cells_def)

text \<open>
  C8. After construction every column, addressed by its header as the code does, is at
  least as wide as its header text and as every cell the rows have in it. The two
  insertion loops only ever widen: no column is narrower after them than before.
\<close>

theorem Table_columns_wide_enough:
  assumes "Table fmeasure cs rows = Inr s"
  shows "(\<forall>k<length cs. fmeasure (cs ! k) \<le> width (tree s) (cs ! k)
            \<and> (\<forall>row\<in>set rows. k < length row \<longrightarrow>
                  fmeasure (row ! k) \<le> width (tree s) (cs ! k)))
       \<and> (\<forall>b part t t' c. insert_rows fmeasure cs b part t = Inr t' \<longrightarrow> width t c \<le> width t' c)
       \<and> (\<forall>idx item t t' c. widen_cols fmeasure cs idx item t = Inr t' \<longrightarrow> width t c \<le> width t' c)"
proof -
  let ?t0 = "insert_headers fmeasure cs (Treeview cs)"
  have ins: "insert_rows fmeasure cs True rows ?t0 = Inr (tree s)"
    by (rule Table_Inr(1)[OF assms])
  have header: "fmeasure (cs ! k) \<le> width (tree s) (cs ! k)" if "k < length cs" for k
  proof -
    have "width ?t0 (cs ! k) = fmeasure (cs ! k)"
      using that by (simp add: insert_headers_width)
    with insert_rows_mono[OF ins, of "cs ! k"] show ?thesis by simp
  qed
  have cell: "fmeasure (row ! k) \<le> width (tree s) (cs ! k)"
    if "row \<in> set rows" "k < length row" for row k
    using insert_rows_wide[OF ins that] .
  from header cell insert_rows_mono widen_cols_mono show ?thesis by blast
qed

text \<open>The theorem at a table whose first column is widened by its second row.\<close>

theorem Table_columns_wide_enough_witness:
  "\<exists>s. Table (\<lambda>v. 7 * int (length v)) [''Name'', ''Score'']
          [[''Bob'', ''5''], [''Amelia'', ''12'']] = Inr s
      \<and> 7 * int (length ''Name'') \<le> width (tree s) ''Name''
      \<and> 7 * int (length ''Amelia'') \<le> width (tree s) ''Name''
      \<and> 7 * int (length ''Score'') \<le> width (tree s) ''Score''
      \<and> 7 * int (length ''12'') \<le> width (tree s) ''Score''"
proof -
  let ?m = "\<lambda>v::string. 7 * int (length v)"
  let ?cs = "[''Name'', ''Score'']"
  let ?rows = "[[''Bob'', ''5''], [''Amelia'', ''12'']]"
  have "\<forall>row\<in>set ?rows. length row \<le> length ?cs" by simp
  from Table_ok[OF this] obtain s where s: "Table ?m ?cs ?rows = Inr s" by blast
  from Table_columns_wide_enough[OF s]
  have w: "\<forall>k<length ?cs. ?m (?cs ! k) \<le> width (tree s) (?cs ! k)
            \<and> (\<forall>row\<in>set ?rows. k < length row \<longrightarrow> ?m (row ! k) \<le> width (tree s) (?cs ! k))"
    by blast
  from w[rule_format, of 0] w[rule_format, of 1] s show ?thesis by simp
qed

lemma motion_Inr:
  "motion i r = Inr s' \<Longrightarrow> \<exists>s. r = Inr s \<and> highlight_row i s = Inr s'"
  by (cases r) (simp_all add: motion_def)

lemma click_Inr:
  "click pfloat col r = Inr s' \<Longrightarrow> \<exists>s. r = Inr s \<and> sort_cols pfloat col s = Inr s'"
  by (cases r) (simp_all add: click_def)

lemma row_order_Some: "row_order r = Some xs \<Longrightarrow> \<exists>s. r = Inr s \<and> children (tree s) = xs"
  by (cases r) (simp_all add: row_order_def)

lemma row_tags_Inr: "row_tags (Inr s) = Some (map (item_tags (tree s)) (children (tree s)))"
  by (simp add: row_tags_def)

lemma shaded_adjacent:
  assumes "shaded t" "Suc k < length (children t)"
  shows "item_tags t (children t ! k) \<noteq> item_tags t (children t ! Suc k)"
  using shaded_nth[OF assms(1), of k] shaded_nth[OF assms(1), of "Suc k"] assms(2)
  by (simp add: shade_from_def)

section \<open>Shades after construction and after a sort\<close>

text \<open>
  C4. The table the constructor returns is shaded, and so is the table after any sort that
  completes in a reachable state. Shaded means: the row at display position \<open>k\<close> carries
  exactly the tag \<^verbatim>\<open>oddrow\<close> when \<open>k\<close> is even and \<^verbatim>\<open>evenrow\<close> when \<open>k\<close> is odd, so
  neighbours differ and no row is left with the hover tag, whatever the tags were before.
\<close>

theorem rows_alternate_shades:
  "(Table fmeasure cs rows = Inr s0 \<longrightarrow> shaded (tree s0))
   \<and> (reachable pfloat s \<and> sort_cols pfloat col s = Inr s' \<longrightarrow> shaded (tree s'))
   \<and> (shaded t \<longrightarrow>
        (\<forall>k. k < length (children t) \<longrightarrow>
           item_tags t (children t ! k) = [if even k then ''oddrow'' else ''evenrow''])
        \<and> (\<forall>k. Suc k < length (children t) \<longrightarrow>
             item_tags t (children t ! k) \<noteq> item_tags t (children t ! Suc k))
        \<and> (\<forall>x\<in>set (children t). ''hovered_row'' \<notin> set (item_tags t x)))"
proof (intro conjI impI allI ballI)
  assume "Table fmeasure cs rows = Inr s0"
  then show "shaded (tree s0)" by (rule Table_shaded)
next
  assume a: "reachable pfloat s \<and> sort_cols pfloat col s = Inr s'"
  then have d: "distinct (children (tree s))" using reachable_distinct by blast
  from a obtain order where "s' = finish_sort order s" "mset order = mset (children (tree s))"
    by (auto elim: sort_cols_order)
  with d show "shaded (tree s')" by (simp add: finish_sort_shaded)
next
  fix k assume "shaded t" "k < length (children t)"
  then show "item_tags t (children t ! k) = [if even k then ''oddrow'' else ''evenrow'']"
    by (simp add: shaded_nth shade_from_def)
next
  fix k assume "shaded t" "Suc k < length (children t)"
  then show "item_tags t (children t ! k) \<noteq> item_tags t (children t ! Suc k)"
    by (rule shaded_adjacent)
next
  fix x assume "shaded t" "x \<in> set (children t)"
  then show "''hovered_row'' \<notin> set (item_tags t x)" by (rule shaded_no_hover)
qed

text \<open>
  The theorem at the scenario table, sorted by score while its first row is hovered: the
  sort swaps the rows and the hover tag is gone.
\<close>

theorem rows_alternate_shades_witness:
  "row_tags (motion ''I001'' (Table (\<lambda>v. 7 * int (length v)) [''Name'', ''Score'']
        [[''Bob'', ''5''], [''Amy'', ''12'']]))
     = Some [[''hovered_row''], [''evenrow'']]
   \<and> row_order (click decimal_float ''Score'' (motion ''I001''
        (Table (\<lambda>v. 7 * int (length v)) [''Name'', ''Score'']
           [[''Bob'', ''5''], [''Amy'', ''12'']])))
     = Some [''I002'', ''I001'']
   \<and> row_tags (click decimal_float ''Score'' (motion ''I001''
        (Table (\<lambda>v. 7 * int (length v)) [''Name'', ''Score'']
           [[''Bob'', ''5''], [''Amy'', ''12'']])))
     = Some [[''oddrow''], [''evenrow'']]"
proof -
  let ?T = "Table (\<lambda>v. 7 * int (length v)) [''Name'', ''Score'']
              [[''Bob'', ''5''], [''Amy'', ''12'']]"
  have hov: "row_tags (motion ''I001'' ?T) = Some [[''hovered_row''], [''evenrow'']]"
    by code_simp
  have ord: "row_order (click decimal_float ''Score'' (motion ''I001'' ?T))
             = Some [''I002'', ''I001'']"
    by code_simp
  from row_order_Some[OF ord] obtain s2 where
    s2: "click decimal_float ''Score'' (motion ''I001'' ?T) = Inr s2"
    and c2: "children (tree s2) = [''I002'', ''I001'']" by blast
  from click_Inr[OF s2] obtain s1 where s1: "motion ''I001'' ?T = Inr s1"
    and srt: "sort_cols decimal_float ''Score'' s1 = Inr s2" by blast
  from motion_Inr[OF s1] obtain s0 where s0: "?T = Inr s0"
    and mv: "highlight_row ''I001'' s0 = Inr s1" by blast
  from s0 mv have r: "reachable decimal_float s1"
    by (blast intro: reachable.intros)
  from rows_alternate_shades[of _ _ _ _ decimal_float s1 "''Score''" s2 "tree s2"] r srt
  have "\<forall>k. k < length (children (tree s2)) \<longrightarrow>
           item_tags (tree s2) (children (tree s2) ! k) = [if even k then ''oddrow'' else ''evenrow'']"
    by blast
  from this[rule_format, of 0] this[rule_format, of 1] c2
  have "map (item_tags (tree s2)) (children (tree s2)) = [[''oddrow''], [''evenrow'']]"
    by simp
  with hov ord s2 show ?thesis by (simp add: row_tags_def)
qed

lemma sort_cols_ValueError_iff:
  "sort_cols pfloat col s = Inl ValueError \<longleftrightarrow>
     (\<exists>first rest. read_column (tree s) col = Inr (first # rest) \<and> looks_numeric (fst first)
        \<and> (\<exists>x\<in>set (first # rest). pfloat (fst x) = None))"
proof (cases "read_column (tree s) col")
  case (Inl e)
  have "e = TclError"
  proof (cases "column_index (columns (tree s)) col")
    case None
    with Inl show ?thesis
      using read_column_None[of "tree s" col] by (cases "children (tree s) = []") (auto simp: read_column_def)
  next
    case (Some k)
    with Inl show ?thesis by (simp add: read_column_Some)
  qed
  with Inl show ?thesis by (simp add: sort_cols_def)
next
  case (Inr rows)
  show ?thesis
  proof (cases rows)
    case Nil
    with Inr show ?thesis by (simp add: sort_cols_def)
  next
    case (Cons first rest)
    show ?thesis
    proof (cases "looks_numeric (fst first)")
      case False
      with Inr Cons show ?thesis by (simp add: sort_cols_text)
    next
      case True
      show ?thesis
      proof (cases "\<exists>x\<in>set (first # rest). pfloat (fst x) = None")
        case bad: True
        from to_floats_fail[OF bad] Inr Cons True bad show ?thesis
          by (simp add: sort_cols_numeric del: set_simps)  
      next
        case good: False
        then have "\<forall>x\<in>set (first # rest). pfloat (fst x) \<noteq> None" by simp
        from to_floats_ok[OF this] Inr Cons True good show ?thesis
          by (simp add: sort_cols_numeric del: set_simps)
      qed
    qed
  qed
qed


lemma Table_read_column:
  assumes "Table m cs rows = Inr s" "column_index cs col = Some k"
  shows "read_column (tree s) col
         = Inr (map (\<lambda>j. (if k < length (rows ! j) then rows ! j ! k else [], item_id (Suc j)))
                  [0..<length rows])"
proof -
  have "read_column (tree s) col
        = Inr (map (\<lambda>c. (cell_text (tree s) k c, c)) (children (tree s)))"
    using assms by (simp add: read_column_Some Table_children(2))
  moreover have "map (\<lambda>c. (cell_text (tree s) k c, c)) (children (tree s))
        = map (\<lambda>j. (if k < length (rows ! j) then rows ! j ! k else [], item_id (Suc j)))
            [0..<length rows]"
  proof (rule nth_equalityI)
    show "length (map (\<lambda>c. (cell_text (tree s) k c, c)) (children (tree s)))
          = length (map (\<lambda>j. (if k < length (rows ! j) then rows ! j ! k else [], item_id (Suc j)))
              [0..<length rows])"
      by (simp add: Table_children(1)[OF assms(1)])
  next
    fix j assume "j < length (map (\<lambda>c. (cell_text (tree s) k c, c)) (children (tree s)))"
    then have j: "j < length rows" by (simp add: Table_children(1)[OF assms(1)])
    have "children (tree s) ! j = item_id (Suc j)"
      using j by (simp add: Table_children(1)[OF assms(1)])
    with Table_items(1)[OF assms(1) j] j
    show "map (\<lambda>c. (cell_text (tree s) k c, c)) (children (tree s)) ! j
          = map (\<lambda>j. (if k < length (rows ! j) then rows ! j ! k else [], item_id (Suc j)))
              [0..<length rows] ! j"
      by (simp add: cell_text_def Table_children(1)[OF assms(1)])
  qed
  ultimately show ?thesis by simp
qed

section \<open>Which branch a sort takes, and when it raises\<close>




text \<open>
  C2. The claim has an empty first value sorted as text. Line 107 tests
  \<^verbatim>\<open>data[0][0][0:1] in "0123456789"\<close>, and the empty slice of an empty value occurs in every
  string: the numeric branch is taken, \<^verbatim>\<open>float('')\<close> raises and the sort fails. The comment
  on line 108 asks for a cell that begins with a number.
\<close>

theorem empty_sample_is_parsed:
  "\<exists>s. Table fmeasure [''Name''] [[''''], [''b'']] = Inr s
       \<and> shown_column ''Name'' (Inr s) = Some [('''', ''I001''), (''b'', ''I002'')]
       \<and> numeric_branch s ''Name''
       \<and> sort_cols decimal_float ''Name'' s = Inl ValueError"
proof -
  have "\<forall>row\<in>set [[''''], [''b'']]. length row \<le> length [''Name'']" by simp
  from Table_ok[OF this] obtain s where s: "Table fmeasure [''Name''] [[''''], [''b'']] = Inr s"
    by blast
  have id1: "item_id (Suc 0) = ''I001''" and id2: "item_id (Suc (Suc 0)) = ''I002''"
    by code_simp+
  have rc: "read_column (tree s) ''Name'' = Inr [('''', ''I001''), (''b'', ''I002'')]"
    using Table_read_column[OF s, of "''Name''" 0] by (simp add: id1 id2)
  have n: "looks_numeric ''''" by code_simp
  have f: "decimal_float '''' = None" by code_simp
  have "sort_cols decimal_float ''Name'' s = Inl ValueError"
    using rc n f by (simp add: sort_cols_ValueError_iff)
  with s rc n show ?thesis by (simp add: shown_column_def numeric_branch_def)
qed



lemma sort_cols_keeps_focus:
  "sort_cols pfloat col s = Inr s' \<Longrightarrow>
   last_focus_iid s' = last_focus_iid s \<and> last_focus_tags s' = last_focus_tags s"
  by (erule sort_cols_order) simp


lemma numeric_branch_Cons:
  "read_column (tree s) col = Inr rows \<Longrightarrow> rows \<noteq> [] \<Longrightarrow>
   numeric_branch s col = looks_numeric (fst (hd rows))"
  by (cases rows) (simp_all add: numeric_branch_def)








section \<open>Two sorts in a row\<close>




lemma focus_Some:
  "focus r = Some (a, b) \<Longrightarrow> \<exists>s. r = Inr s \<and> last_focus_iid s = a \<and> last_focus_tags s = b"
  by (cases r) (simp_all add: focus_def)

lemma restore_focus_tags_other:
  "last_focus_iid s \<noteq> Some i \<Longrightarrow> item_tags (restore_focus s) i = item_tags (tree s) i"
  by (auto simp: restore_focus_def truthy_def tree_item_set_tags_def split: option.splits)

lemma restore_focus_tags_focus:
  "last_focus_iid s = Some j \<Longrightarrow> j \<noteq> [] \<Longrightarrow> last_focus_tags s = Some ts \<Longrightarrow>
   item_tags (restore_focus s) = (item_tags (tree s))(j := ts)"
  by (simp add: restore_focus_def truthy_def tree_item_set_tags_def)

lemma highlight_row_leave:
  assumes j: "last_focus_iid s = Some j" "j \<noteq> []" "last_focus_tags s = Some ts"
    and i: "tree_exists (tree s) i" "i \<noteq> j"
  shows "\<exists>s'. highlight_row i s = Inr s'
           \<and> item_tags (tree s') = (item_tags (tree s))(j := ts, i := [''hovered_row''])
           \<and> children (tree s') = children (tree s)
           \<and> last_focus_iid s' = Some i
           \<and> last_focus_tags s' = Some (item_tags (tree s) i)"
proof -
  from j(1) i(2) have ne: "last_focus_iid s \<noteq> Some i" by simp
  from highlight_row_other[OF ne i(1)] restore_focus_tags_focus[OF j] i(2)
  show ?thesis by (simp add: tree_item_set_tags_def)
qed

lemma distinct_all_same:
  assumes "distinct xs" "\<forall>x\<in>set xs. x = a"
  shows "length xs \<le> 1"
proof (cases xs)
  case Nil
  then show ?thesis by simp
next
  case (Cons x ys)
  show ?thesis
  proof (cases ys)
    case Nil
    with Cons show ?thesis by simp
  next
    case (Cons y zs)
    with \<open>xs = x # ys\<close> assms(2) have "x = a" "y = a" by simp_all
    with Cons \<open>xs = x # ys\<close> assms(1) show ?thesis by simp
  qed
qed

lemma hovered_rows_le1:
  assumes "hover_inv s"
  shows "length (hovered_rows (tree s)) \<le> 1"
proof (cases "last_focus_iid s")
  case None
  have "hovered_rows (tree s) = []"
    using assms None by (auto simp: hover_inv_def hovered_rows_def list_all_iff filter_empty_conv)
  then show ?thesis by simp
next
  case (Some j)
  have d: "distinct (hovered_rows (tree s))"
    using assms by (simp add: hover_inv_def hovered_rows_def)
  have "\<forall>x\<in>set (hovered_rows (tree s)). x = j"
    using assms Some by (auto simp: hover_inv_def hovered_rows_def list_all_iff)
  with d show ?thesis by (rule distinct_all_same)
qed

section \<open>Hovering\<close>

text \<open>
  C6. In every reachable state at most one row carries the hover tag. A motion that stays
  on the focused row changes nothing. A motion from a focused row to another row gives the
  old row the tags recorded for it and gives the new row the hover tag as its only tag,
  recording the tags the new row had. So a row that becomes hovered and is then left
  carries again exactly the tags it had just before it became hovered.
\<close>

theorem hover_marks_one_row:
  "(reachable pfloat s \<longrightarrow> length (hovered_rows (tree s)) \<le> 1)
   \<and> (last_focus_iid s = Some i \<longrightarrow> highlight_row i s = Inr s)
   \<and> (last_focus_iid s = Some j \<and> j \<noteq> [] \<and> last_focus_tags s = Some ts
        \<and> i \<in> set (children (tree s)) \<and> i \<noteq> j \<longrightarrow>
        (\<exists>s'. highlight_row i s = Inr s'
           \<and> item_tags (tree s') j = ts
           \<and> item_tags (tree s') i = [''hovered_row'']
           \<and> last_focus_iid s' = Some i
           \<and> last_focus_tags s' = Some (item_tags (tree s) i)))
   \<and> (last_focus_iid s \<noteq> Some i \<and> i \<noteq> [] \<and> highlight_row i s = Inr s1
        \<and> k \<noteq> i \<and> highlight_row k s1 = Inr s2 \<longrightarrow>
        item_tags (tree s1) i = [''hovered_row'']
        \<and> item_tags (tree s2) i = item_tags (tree s) i)"
proof -
  have p1: "length (hovered_rows (tree s)) \<le> 1" if "reachable pfloat s"
    using that by (intro hovered_rows_le1 reachable_inv)
  have p2: "highlight_row i s = Inr s" if "last_focus_iid s = Some i"
    using that by (rule highlight_row_same)
  have p3: "\<exists>s'. highlight_row i s = Inr s'
           \<and> item_tags (tree s') j = ts
           \<and> item_tags (tree s') i = [''hovered_row'']
           \<and> last_focus_iid s' = Some i
           \<and> last_focus_tags s' = Some (item_tags (tree s) i)"
    if a: "last_focus_iid s = Some j \<and> j \<noteq> [] \<and> last_focus_tags s = Some ts
        \<and> i \<in> set (children (tree s)) \<and> i \<noteq> j"
  proof -
    from a have "tree_exists (tree s) i" by (simp add: tree_exists_def)
    with a highlight_row_leave[of s j ts i] show ?thesis by auto
  qed
  have p4: "item_tags (tree s1) i = [''hovered_row'']
        \<and> item_tags (tree s2) i = item_tags (tree s) i"
    if a: "last_focus_iid s \<noteq> Some i \<and> i \<noteq> [] \<and> highlight_row i s = Inr s1
        \<and> k \<noteq> i \<and> highlight_row k s1 = Inr s2"
  proof -
    from a have ne: "last_focus_iid s \<noteq> Some i" by simp
    with a have ex: "tree_exists (tree s) i"
      using highlight_row_missing[of s i] by auto
    from highlight_row_other[OF ne ex] a have s1:
      "s1 = s\<lparr>last_focus_tags := Some (item_tags (restore_focus s) i),
             tree := tree_item_set_tags i [''hovered_row''] (restore_focus s),
             last_focus_iid := Some i\<rparr>" by simp
    have f1: "last_focus_iid s1 = Some i" "last_focus_tags s1 = Some (item_tags (tree s) i)"
      by (simp_all add: s1 restore_focus_tags_other[OF ne])
    have t1: "item_tags (tree s1) i = [''hovered_row'']"
      by (simp add: s1 tree_item_set_tags_def)
    from a f1 have ne2: "last_focus_iid s1 \<noteq> Some k" by auto
    with a have ex2: "tree_exists (tree s1) k"
      using highlight_row_missing[of s1 k] by auto
    from a have ki: "k \<noteq> i" and i0: "i \<noteq> []" by simp_all
    from highlight_row_leave[OF f1(1) i0 f1(2) ex2 ki] a
    have "item_tags (tree s2) i = item_tags (tree s) i" by auto
    with t1 show ?thesis by simp
  qed
  show ?thesis
    by (rule conjI[OF impI[OF p1] conjI[OF impI[OF p2] conjI[OF impI[OF p3] impI[OF p4]]]])
qed

text \<open>The theorem at the scenario table: the pointer on the first row, then on the second.\<close>

theorem hover_marks_one_row_witness:
  "row_tags (motion ''I001'' (Table (\<lambda>v. 7 * int (length v)) [''Name'', ''Score'']
        [[''Bob'', ''5''], [''Amy'', ''12'']]))
     = Some [[''hovered_row''], [''evenrow'']]
   \<and> (\<exists>s1 s2. motion ''I001'' (Table (\<lambda>v. 7 * int (length v)) [''Name'', ''Score'']
        [[''Bob'', ''5''], [''Amy'', ''12'']]) = Inr s1
        \<and> length (hovered_rows (tree s1)) \<le> 1
        \<and> highlight_row ''I001'' s1 = Inr s1
        \<and> highlight_row ''I002'' s1 = Inr s2
        \<and> item_tags (tree s2) ''I001'' = [''oddrow'']
        \<and> item_tags (tree s2) ''I002'' = [''hovered_row''])"
proof -
  let ?T = "Table (\<lambda>v. 7 * int (length v)) [''Name'', ''Score'']
              [[''Bob'', ''5''], [''Amy'', ''12'']]"
  have tg: "row_tags (motion ''I001'' ?T) = Some [[''hovered_row''], [''evenrow'']]"
    by code_simp
  have "focus (motion ''I001'' ?T) = Some (Some ''I001'', Some [''oddrow''])"
    by code_simp
  from focus_Some[OF this] obtain s1 where s1: "motion ''I001'' ?T = Inr s1"
    and f: "last_focus_iid s1 = Some ''I001''" "last_focus_tags s1 = Some [''oddrow'']"
    by blast
  from motion_Inr[OF s1] obtain s0 where s0: "?T = Inr s0"
    and mv: "highlight_row ''I001'' s0 = Inr s1" by blast
  from s0 mv have r: "reachable decimal_float s1" by (blast intro: reachable.intros)
  have "row_order (motion ''I001'' ?T) = Some [''I001'', ''I002'']" by code_simp
  with s1 have c: "children (tree s1) = [''I001'', ''I002'']" by (simp add: row_order_def)
  note inst = hover_marks_one_row[of decimal_float s1 _ "''I001''" "[''oddrow'']"]
  from inst[of "''I001''", THEN conjunct1] r
  have a: "length (hovered_rows (tree s1)) \<le> 1" by simp
  from inst[of "''I001''", THEN conjunct2, THEN conjunct1] f
  have b: "highlight_row ''I001'' s1 = Inr s1" by simp
  from inst[of "''I002''", THEN conjunct2, THEN conjunct2, THEN conjunct1] f c
  have "\<exists>s'. highlight_row ''I002'' s1 = Inr s'
           \<and> item_tags (tree s') ''I001'' = [''oddrow'']
           \<and> item_tags (tree s') ''I002'' = [''hovered_row'']
           \<and> last_focus_iid s' = Some ''I002''
           \<and> last_focus_tags s' = Some (item_tags (tree s1) ''I002'')"
    by simp
  then obtain s2 where "highlight_row ''I002'' s1 = Inr s2"
    "item_tags (tree s2) ''I001'' = [''oddrow'']"
    "item_tags (tree s2) ''I002'' = [''hovered_row'']"
    by blast
  with tg s1 a b show ?thesis by blast
qed

text \<open>
  C7. When the hit test finds no row while a row is focused, the handler completes: the row
  gets its recorded tags back, the recorded handle becomes the empty one, which the handler
  treats as no focus, and no row carries the hover tag. The hover tag goes to the widget's
  root item, which is no row.
\<close>

theorem pointer_off_rows_unfocuses:
  "reachable pfloat s \<and> last_focus_iid s = Some j \<and> j \<noteq> [] \<longrightarrow>
     (\<exists>s' ts. highlight_row [] s = Inr s'
        \<and> last_focus_tags s = Some ts
        \<and> item_tags (tree s') j = ts
        \<and> last_focus_iid s' = Some []
        \<and> \<not> truthy (last_focus_iid s')
        \<and> hovered_rows (tree s') = []
        \<and> children (tree s') = children (tree s))"
proof
  assume a: "reachable pfloat s \<and> last_focus_iid s = Some j \<and> j \<noteq> []"
  then have inv: "hover_inv s" using reachable_inv by blast
  from a have j: "last_focus_iid s = Some j" "j \<noteq> []" by simp_all
  with inv obtain ts where ts: "last_focus_tags s = Some ts" and nh: "''hovered_row'' \<notin> set ts"
    by (auto simp: hover_inv_def truthy_def split: option.splits)
  have ex: "tree_exists (tree s) []" by (simp add: tree_exists_def)
  from highlight_row_leave[OF j ts ex] j(2) obtain s' where
    h: "highlight_row [] s = Inr s'"
    and tg: "item_tags (tree s') = (item_tags (tree s))(j := ts, [] := [''hovered_row''])"
    and ch: "children (tree s') = children (tree s)"
    and lf: "last_focus_iid s' = Some []"
    by auto
  have "''hovered_row'' \<notin> set (item_tags (tree s') x)" if x: "x \<in> set (children (tree s))" for x
  proof -
    from inv x have x0: "x \<noteq> []" by (auto simp: hover_inv_def)
    show ?thesis
    proof (cases "x = j")
      case True
      with j(2) nh show ?thesis by (simp add: tg)
    next
      case False
      with inv x j(1) have "''hovered_row'' \<notin> set (item_tags (tree s) x)"
        by (auto simp: hover_inv_def list_all_iff)
      with False x0 show ?thesis by (simp add: tg)
    qed
  qed
  then have "hovered_rows (tree s') = []"
    by (simp add: hovered_rows_def ch filter_empty_conv)
  moreover from tg j(2) have "item_tags (tree s') j = ts" by simp
  ultimately show "\<exists>s' ts. highlight_row [] s = Inr s'
        \<and> last_focus_tags s = Some ts
        \<and> item_tags (tree s') j = ts
        \<and> last_focus_iid s' = Some []
        \<and> \<not> truthy (last_focus_iid s')
        \<and> hovered_rows (tree s') = []
        \<and> children (tree s') = children (tree s)"
    using h ts lf ch by (auto simp: truthy_def)
qed

text \<open>The theorem at the scenario table: the pointer on the first row, then off all rows.\<close>

theorem pointer_off_rows_unfocuses_witness:
  "focus (motion ''I001'' (Table (\<lambda>v. 7 * int (length v)) [''Name'', ''Score'']
        [[''Bob'', ''5''], [''Amy'', ''12'']]))
     = Some (Some ''I001'', Some [''oddrow''])
   \<and> row_tags (motion [] (motion ''I001'' (Table (\<lambda>v. 7 * int (length v)) [''Name'', ''Score'']
        [[''Bob'', ''5''], [''Amy'', ''12'']])))
     = Some [[''oddrow''], [''evenrow'']]
   \<and> (\<exists>s'. motion [] (motion ''I001'' (Table (\<lambda>v. 7 * int (length v)) [''Name'', ''Score'']
        [[''Bob'', ''5''], [''Amy'', ''12'']])) = Inr s'
        \<and> item_tags (tree s') ''I001'' = [''oddrow'']
        \<and> last_focus_iid s' = Some []
        \<and> hovered_rows (tree s') = [])"
proof -
  let ?T = "Table (\<lambda>v. 7 * int (length v)) [''Name'', ''Score'']
              [[''Bob'', ''5''], [''Amy'', ''12'']]"
  have fc: "focus (motion ''I001'' ?T) = Some (Some ''I001'', Some [''oddrow''])"
    by code_simp
  have tg: "row_tags (motion [] (motion ''I001'' ?T)) = Some [[''oddrow''], [''evenrow'']]"
    by code_simp
  from focus_Some[OF fc] obtain s1 where s1: "motion ''I001'' ?T = Inr s1"
    and f: "last_focus_iid s1 = Some ''I001''" "last_focus_tags s1 = Some [''oddrow'']"
    by blast
  from motion_Inr[OF s1] obtain s0 where s0: "?T = Inr s0"
    and mv: "highlight_row ''I001'' s0 = Inr s1" by blast
  from s0 mv have r: "reachable decimal_float s1" by (blast intro: reachable.intros)
  from pointer_off_rows_unfocuses[of decimal_float s1 "''I001''"] r f
  obtain s' where "highlight_row [] s1 = Inr s'" "item_tags (tree s') ''I001'' = [''oddrow'']"
    "last_focus_iid s' = Some []" "hovered_rows (tree s') = []"
    by auto
  with s1 have "\<exists>s'. motion [] (motion ''I001'' ?T) = Inr s'
        \<and> item_tags (tree s') ''I001'' = [''oddrow'']
        \<and> last_focus_iid s' = Some []
        \<and> hovered_rows (tree s') = []"
    by (simp add: motion_def)
  with fc tg show ?thesis by blast
qed

lemma finish_sort_position:
  assumes d: "distinct (children (tree s))" and m: "mset order = mset (children (tree s))"
    and j: "j \<in> set (children (tree s))"
  shows "\<exists>p<length (children (tree (finish_sort order s))).
           children (tree (finish_sort order s)) ! p = j
           \<and> item_tags (tree (finish_sort order s)) j = [shade_from True p]"
proof -
  let ?s' = "finish_sort order s"
  have c: "children (tree ?s') = order" by (rule finish_sort_children[OF d m])
  from m j have "j \<in> set order" by (metis set_mset_mset)
  then obtain p where p: "p < length order" "order ! p = j" by (auto simp: in_set_conv_nth)
  from shaded_nth[OF finish_sort_shaded[OF d m], of p] p c
  have "item_tags (tree ?s') j = [shade_from True p]" by simp
  with p c show ?thesis by auto
qed

section \<open>A sort while a row is hovered\<close>

text \<open>
  C10. A completed sort leaves the recorded focus as it was. If a row is focused when the
  sort runs, the sort gives that row the shade of its new position, the row stays recorded
  as focused with the tags saved before the sort, and the next motion to any other target
  writes those saved tags back on it. The two closing conjuncts run such a sequence on a
  two-row table: the row left at position 1 ends with \<^verbatim>\<open>oddrow\<close>, the shade of position 0,
  and once the pointer has left the table both rows carry \<^verbatim>\<open>oddrow\<close>.
\<close>

theorem sort_leaves_focus_stale:
  "(sort_cols pfloat col s = Inr s1 \<longrightarrow>
      last_focus_iid s1 = last_focus_iid s \<and> last_focus_tags s1 = last_focus_tags s)
   \<and> (reachable pfloat s \<and> last_focus_iid s = Some j \<and> j \<noteq> []
        \<and> sort_cols pfloat col s = Inr s1 \<longrightarrow>
        (\<exists>p ts. p < length (children (tree s1)) \<and> children (tree s1) ! p = j
           \<and> item_tags (tree s1) j = [shade_from True p]
           \<and> last_focus_iid s1 = Some j
           \<and> last_focus_tags s = Some ts \<and> last_focus_tags s1 = Some ts
           \<and> (\<forall>i. tree_exists (tree s1) i \<and> i \<noteq> j \<longrightarrow>
                 (\<exists>s2. highlight_row i s1 = Inr s2
                    \<and> item_tags (tree s2) j = ts
                    \<and> children (tree s2) = children (tree s1)))))
   \<and> row_tags (motion ''I002'' (click pfloat ''n'' (motion ''I001''
          (Table (\<lambda>v. 0) [''n''] [[''a''], [''b'']]))))
       = Some [[''hovered_row''], [''oddrow'']]
   \<and> row_tags (motion [] (motion ''I002'' (click pfloat ''n'' (motion ''I001''
          (Table (\<lambda>v. 0) [''n''] [[''a''], [''b'']])))))
       = Some [[''oddrow''], [''oddrow'']]"
proof -
  have p1: "last_focus_iid s1 = last_focus_iid s \<and> last_focus_tags s1 = last_focus_tags s"
    if "sort_cols pfloat col s = Inr s1"
    using that by (rule sort_cols_keeps_focus)
  have p2: "\<exists>p ts. p < length (children (tree s1)) \<and> children (tree s1) ! p = j
           \<and> item_tags (tree s1) j = [shade_from True p]
           \<and> last_focus_iid s1 = Some j
           \<and> last_focus_tags s = Some ts \<and> last_focus_tags s1 = Some ts
           \<and> (\<forall>i. tree_exists (tree s1) i \<and> i \<noteq> j \<longrightarrow>
                 (\<exists>s2. highlight_row i s1 = Inr s2
                    \<and> item_tags (tree s2) j = ts
                    \<and> children (tree s2) = children (tree s1)))"
    if a: "reachable pfloat s \<and> last_focus_iid s = Some j \<and> j \<noteq> []
        \<and> sort_cols pfloat col s = Inr s1"
  proof -
    from a have inv: "hover_inv s" using reachable_inv by blast
    from a have j: "last_focus_iid s = Some j" "j \<noteq> []" and srt: "sort_cols pfloat col s = Inr s1"
      by simp_all
    from inv j obtain ts where ts: "last_focus_tags s = Some ts"
      and jin: "j \<in> set (children (tree s))"
      by (auto simp: hover_inv_def truthy_def split: option.splits)
    from inv have d: "distinct (children (tree s))" by (simp add: hover_inv_def)
    from srt obtain order where s1: "s1 = finish_sort order s"
      and m: "mset order = mset (children (tree s))" by (rule sort_cols_order)
    from finish_sort_position[OF d m jin] s1 obtain p where
      p: "p < length (children (tree s1))" "children (tree s1) ! p = j"
         "item_tags (tree s1) j = [shade_from True p]" by auto
    have f1: "last_focus_iid s1 = Some j" "last_focus_tags s1 = Some ts"
      using sort_cols_keeps_focus[OF srt] j ts by simp_all
    have leave: "\<exists>s2. highlight_row i s1 = Inr s2 \<and> item_tags (tree s2) j = ts
                    \<and> children (tree s2) = children (tree s1)"
      if "tree_exists (tree s1) i \<and> i \<noteq> j" for i
    proof -
      from that have "tree_exists (tree s1) i" "i \<noteq> j" by simp_all
      from highlight_row_leave[OF f1(1) j(2) f1(2) this] this(2)
      show ?thesis by auto
    qed
    from p f1 ts leave show ?thesis by blast
  qed
  let ?T = "Table (\<lambda>v. 0) [''n''] [[''a''], [''b'']]"
  have p3: "row_tags (motion ''I002'' (click pfloat ''n'' (motion ''I001'' ?T)))
       = Some [[''hovered_row''], [''oddrow'']]"
    by code_simp
  have p4: "row_tags (motion [] (motion ''I002'' (click pfloat ''n'' (motion ''I001'' ?T))))
       = Some [[''oddrow''], [''oddrow'']]"
    by code_simp
  show ?thesis
    by (rule conjI[OF impI[OF p1] conjI[OF impI[OF p2] conjI[OF p3 p4]]])
qed

text \<open>
  The theorem at that table, sorted while its first row is hovered, the pointer then moving
  to the other row.
\<close>

theorem sort_leaves_focus_stale_witness:
  "focus (click decimal_float ''n'' (motion ''I001'' (Table (\<lambda>v. 0) [''n''] [[''a''], [''b'']])))
     = Some (Some ''I001'', Some [''oddrow''])
   \<and> row_order (click decimal_float ''n'' (motion ''I001''
         (Table (\<lambda>v. 0) [''n''] [[''a''], [''b'']])))
     = Some [''I002'', ''I001'']
   \<and> row_tags (click decimal_float ''n'' (motion ''I001''
         (Table (\<lambda>v. 0) [''n''] [[''a''], [''b'']])))
     = Some [[''oddrow''], [''evenrow'']]
   \<and> (\<exists>s1 s2. click decimal_float ''n'' (motion ''I001''
         (Table (\<lambda>v. 0) [''n''] [[''a''], [''b'']])) = Inr s1
        \<and> highlight_row ''I002'' s1 = Inr s2
        \<and> children (tree s2) = [''I002'', ''I001'']
        \<and> item_tags (tree s2) ''I001'' = [''oddrow''])"
proof -
  let ?T = "Table (\<lambda>v. 0) [''n''] [[''a''], [''b'']]"
  have fc: "focus (click decimal_float ''n'' (motion ''I001'' ?T))
            = Some (Some ''I001'', Some [''oddrow''])" by code_simp
  have ro: "row_order (click decimal_float ''n'' (motion ''I001'' ?T)) = Some [''I002'', ''I001'']"
    by code_simp
  have rt: "row_tags (click decimal_float ''n'' (motion ''I001'' ?T))
            = Some [[''oddrow''], [''evenrow'']]" by code_simp
  have "focus (motion ''I001'' ?T) = Some (Some ''I001'', Some [''oddrow''])" by code_simp
  from focus_Some[OF this] obtain s where s: "motion ''I001'' ?T = Inr s"
    and f: "last_focus_iid s = Some ''I001''" "last_focus_tags s = Some [''oddrow'']"
    by blast
  from motion_Inr[OF s] obtain s0 where s0: "?T = Inr s0"
    and mv: "highlight_row ''I001'' s0 = Inr s" by blast
  from s0 mv have r: "reachable decimal_float s" by (blast intro: reachable.intros)
  from row_order_Some[OF ro] obtain s1 where
    s1: "click decimal_float ''n'' (motion ''I001'' ?T) = Inr s1"
    and c1: "children (tree s1) = [''I002'', ''I001'']" by blast
  from s1 s have srt: "sort_cols decimal_float ''n'' s = Inr s1" by (simp add: click_def)
  from sort_leaves_focus_stale[of decimal_float "''n''" s s1 "''I001''",
      THEN conjunct2, THEN conjunct1] r f srt
  obtain ts where ts: "last_focus_tags s = Some ts"
    and leave: "\<forall>i. tree_exists (tree s1) i \<and> i \<noteq> ''I001'' \<longrightarrow>
                 (\<exists>s2. highlight_row i s1 = Inr s2
                    \<and> item_tags (tree s2) ''I001'' = ts
                    \<and> children (tree s2) = children (tree s1))"
    by auto
  from ts f have "ts = [''oddrow'']" by simp
  moreover have "tree_exists (tree s1) ''I002''" by (simp add: tree_exists_def c1)
  ultimately obtain s2 where "highlight_row ''I002'' s1 = Inr s2"
    "item_tags (tree s2) ''I001'' = [''oddrow'']" "children (tree s2) = [''I002'', ''I001'']"
    using leave[rule_format, of "''I002''"] c1 by auto
  with s1 fc ro rt show ?thesis by blast
qed

section \<open>Sorting an empty table\<close>

lemma sort_cols_no_rows: "children (tree s) = [] \<Longrightarrow> sort_cols pfloat col s = Inl IndexError"
  by (simp add: sort_cols_def read_column_def)

lemma Table_no_rows: "\<exists>s. Table fmeasure cs [] = Inr s \<and> children (tree s) = []"
  by (simp add: Table_def init_table_def insert_data_def Treeview_def)

text \<open>
  C1. The claim is that sorting a table with zero rows does not fail and toggles the
  direction flag. The code reads \<^verbatim>\<open>data[0]\<close> before anything else, so on the table
  constructed from no rows the sort raises \<^verbatim>\<open>IndexError\<close>, whatever the column, the
  headers and the font are.
\<close>

theorem sort_cols_empty_table_raises:
  "\<exists>s. Table fmeasure cs [] = Inr s \<and> children (tree s) = []
       \<and> sort_cols pfloat col s = Inl IndexError"
  using Table_no_rows[of fmeasure cs] sort_cols_no_rows[of _ pfloat col] by blast

end
